theory Spec2Isabelle
  imports Main "HOL-Library.AList" "HOL-Library.List_Lexorder" "HOL-Library.Multiset"
begin

section \<open>Values, errors and Python's dynamic operations\<close>

text \<open>
  The analyzer works on the decoded JSON bodies of the hosting API. A value is null, a
  boolean, a string, an array or an object; an object is an association list in
  insertion order, as a Python dict is. Numbers are left out: no field the analyzer
  reads is numeric, and Python's equality of numbers and booleans as dictionary keys
  would need a model of its own. Strings are lists of 8-bit characters (code points
  up to 255).
\<close>

datatype json =
    JNull
  | JBool bool
  | JStr string
  | JArr "json list"
  | JObj "(string \<times> json) list"

text \<open>
  Every exception the modelled code can raise is a value. \<open>AnalyzerError\<close> is the input
  error of the analyzer, \<open>RepositoryError\<close> the query error of the client; the other
  three are Python's own.
\<close>

datatype error =
    AnalyzerError string
  | RepositoryError string
  | KeyError string
  | TypeError
  | OverflowError

text \<open>Python's truth value of a decoded value: \<open>if not x\<close> holds when \<open>\<not> truthy x\<close>.\<close>

fun truthy :: "json \<Rightarrow> bool" where
  "truthy JNull = False"
| "truthy (JBool b) = b"
| "truthy (JStr s) = (s \<noteq> [])"
| "truthy (JArr xs) = (xs \<noteq> [])"
| "truthy (JObj kvs) = (kvs \<noteq> [])"

text \<open>\<open>x[key]\<close> with a string key: only a dict supports it, and a missing key raises.\<close>

fun subscript :: "json \<Rightarrow> string \<Rightarrow> error + json" where
  "subscript (JObj kvs) k = (case map_of kvs k of None \<Rightarrow> Inl (KeyError k) | Some v \<Rightarrow> Inr v)"
| "subscript _ k = Inl TypeError"

text \<open>Lists and dicts cannot be dictionary keys.\<close>

fun hashable :: "json \<Rightarrow> bool" where
  "hashable (JArr xs) = False"
| "hashable (JObj kvs) = False"
| "hashable _ = True"

text \<open>Lower case of an ASCII letter; every other character is left as it is.\<close>

definition to_lower :: "char \<Rightarrow> char" where
  "to_lower c =
     (let n = (of_char c :: nat) in if 65 \<le> n \<and> n \<le> 90 then char_of (n + 32) else c)"

definition to_upper :: "char \<Rightarrow> char" where
  "to_upper c =
     (let n = (of_char c :: nat) in if 97 \<le> n \<and> n \<le> 122 then char_of (n - 32) else c)"

section \<open>The repository client (repo.py)\<close>

subsection \<open>Requests and responses\<close>

text \<open>
  A query parameter is \<open>None\<close>, a count or a string. A request is the URL with its
  parameters (the header and the credentials are the same in every request); the API
  answers a request with a status code, a body text and the decoded body, which is a
  JSON array. The API is a function from requests to responses; every run also
  returns the list of the requests it has sent, in order.
\<close>

datatype pval = PNone | PInt nat | PStr string

type_synonym params = "(string \<times> pval) list"

type_synonym request = "string \<times> params"

record response =
  status_code :: nat
  resp_text :: string
  resp_json :: "json list"

type_synonym api = "request \<Rightarrow> response"

record repository =
  username :: string
  project :: string
  branch :: string

definition base_url :: "repository \<Rightarrow> string" where
  "base_url repo = ''https://api.github.com/repos/'' @ username repo @ ''/'' @ project repo"

definition page_size_const :: nat where
  "page_size_const = 100"

definition request_url :: "repository \<Rightarrow> string \<Rightarrow> string" where
  "request_url repo endpoint = base_url repo @ ''/'' @ endpoint"

definition query :: "api \<Rightarrow> repository \<Rightarrow> string \<Rightarrow> params \<Rightarrow> error + json list" where
  "query srv repo endpoint ps =
     (let r = srv (request_url repo endpoint, ps)
      in if status_code r \<noteq> 200
         then Inl (RepositoryError (''API request error: '' @ resp_text r))
         else Inr (resp_json r))"

subsection \<open>Pagination\<close>

text \<open>
  The \<open>while True\<close> loop of \<open>_get_all_pages\<close>. It has no bound of its own, so it is a
  partial function: \<open>None\<close> is the run that never leaves the loop. The request log is
  threaded through.
\<close>

partial_function (option) pages_loop ::
  "api \<Rightarrow> repository \<Rightarrow> string \<Rightarrow> nat \<Rightarrow> nat \<Rightarrow> params \<Rightarrow> nat \<Rightarrow> json list \<Rightarrow> request list
     \<Rightarrow> ((error + json list) \<times> request list) option" where
  "pages_loop srv repo endpoint page_size max_results ps page data log =
     (let ps = AList.update ''page'' (PInt page) ps;
          log = log @ [(request_url repo endpoint, ps)]
      in case query srv repo endpoint ps of
           Inl e \<Rightarrow> Some (Inl e, log)
         | Inr data_page \<Rightarrow>
             (let data = data @ data_page
              in if length data_page < page_size \<or> (max_results \<noteq> 0 \<and> max_results \<le> length data)
                 then Some (Inr data, log)
                 else pages_loop srv repo endpoint page_size max_results ps (page + 1) data log))"

text \<open>
  The page size and the parameters the loop starts from (lines 80 to 88 of repo.py); an
  empty or absent parameter dict is replaced, any other is updated in place.
\<close>

definition page_size_of :: "nat \<Rightarrow> nat" where
  "page_size_of max_results =
     (if max_results \<noteq> 0 \<and> max_results < page_size_const then max_results
      else page_size_const)"

definition with_per_page :: "params \<Rightarrow> nat \<Rightarrow> params" where
  "with_per_page ps page_size =
     (if ps \<noteq> [] then AList.update ''per_page'' (PInt page_size) ps
      else [(''per_page'', PInt page_size)])"

definition get_all_pages ::
  "api \<Rightarrow> repository \<Rightarrow> string \<Rightarrow> params \<Rightarrow> nat \<Rightarrow> ((error + json list) \<times> request list) option" where
  "get_all_pages srv repo endpoint ps max_results =
     (let page_size = page_size_of max_results;
          ps = with_per_page ps page_size
      in case pages_loop srv repo endpoint page_size max_results ps 1 [] [] of
           None \<Rightarrow> None
         | Some (Inl e, log) \<Rightarrow> Some (Inl e, log)
         | Some (Inr data, log) \<Rightarrow>
             if max_results \<noteq> 0 then Some (Inr (take max_results data), log)
             else Some (Inr data, log))"

text \<open>
  Names for what a run of the loop sees: the request for page \<open>n\<close>, its response, and
  the records of the pages \<open>p, p + 1, ..., p + k - 1\<close> in order.
\<close>

definition page_request :: "repository \<Rightarrow> string \<Rightarrow> params \<Rightarrow> nat \<Rightarrow> request" where
  "page_request repo endpoint ps n =
     (request_url repo endpoint, AList.update ''page'' (PInt n) ps)"

definition page_response :: "api \<Rightarrow> repository \<Rightarrow> string \<Rightarrow> params \<Rightarrow> nat \<Rightarrow> response" where
  "page_response srv repo endpoint ps n = srv (page_request repo endpoint ps n)"

definition pages_data :: "api \<Rightarrow> repository \<Rightarrow> string \<Rightarrow> params \<Rightarrow> nat \<Rightarrow> nat \<Rightarrow> json list" where
  "pages_data srv repo endpoint ps p k =
     concat (map (\<lambda>n. resp_json (page_response srv repo endpoint ps n)) [p..<p + k])"

text \<open>
  The loop goes on after page \<open>n\<close> when the page was answered with status 200, was
  full, and the cap (when there is one) is not yet met by the \<open>before\<close> records
  held so far together with the page's. \<open>continues\<close> says it of a run of
  \<open>_get_all_pages\<close>, which starts at page 1 with no records.
\<close>

definition goes_on ::
  "api \<Rightarrow> repository \<Rightarrow> string \<Rightarrow> nat \<Rightarrow> nat \<Rightarrow> params \<Rightarrow> nat \<Rightarrow> nat \<Rightarrow> bool" where
  "goes_on srv repo endpoint page_size max_results ps before n \<longleftrightarrow>
     status_code (page_response srv repo endpoint ps n) = 200 \<and>
     page_size \<le> length (resp_json (page_response srv repo endpoint ps n)) \<and>
     (max_results = 0 \<or>
      before + length (resp_json (page_response srv repo endpoint ps n)) < max_results)"

definition continues :: "api \<Rightarrow> repository \<Rightarrow> string \<Rightarrow> params \<Rightarrow> nat \<Rightarrow> nat \<Rightarrow> bool" where
  "continues srv repo endpoint ps max_results n \<longleftrightarrow>
     goes_on srv repo endpoint (page_size_of max_results) max_results
       (with_per_page ps (page_size_of max_results))
       (length (pages_data srv repo endpoint (with_per_page ps (page_size_of max_results)) 1 (n - 1)))
       n"

text \<open>The records a run returns: the accumulator, cut to the cap when there is one.\<close>

definition capped :: "nat \<Rightarrow> json list \<Rightarrow> json list" where
  "capped max_results data = (if max_results \<noteq> 0 then take max_results data else data)"

text \<open>
  Two simulated endpoints: one answers page \<open>n\<close> with as many records as the
  \<open>n\<close>-th entry of a list says (and with an empty page beyond the list), the other
  answers every request with a page of 100 records.
\<close>

definition sized_api :: "nat list \<Rightarrow> api" where
  "sized_api sizes = (\<lambda>(url, ps).
     case map_of ps ''page'' of
       Some (PInt n) \<Rightarrow>
         \<lparr>status_code = 200, resp_text = [],
          resp_json = replicate (if 0 < n \<and> n \<le> length sizes then sizes ! (n - 1) else 0) JNull\<rparr>
     | _ \<Rightarrow> \<lparr>status_code = 422, resp_text = ''no page'', resp_json = []\<rparr>)"

definition full_api :: api where
  "full_api = (\<lambda>(url, ps). \<lparr>status_code = 200, resp_text = [], resp_json = replicate 100 JNull\<rparr>)"

text \<open>A third one answers full pages up to page \<open>k - 1\<close> and fails from page \<open>k\<close> on.\<close>

definition failing_api :: "nat \<Rightarrow> api" where
  "failing_api k = (\<lambda>(url, ps).
     case map_of ps ''page'' of
       Some (PInt n) \<Rightarrow>
         if n < k then \<lparr>status_code = 200, resp_text = [], resp_json = replicate 100 JNull\<rparr>
         else \<lparr>status_code = 500, resp_text = ''Server Error'', resp_json = []\<rparr>
     | _ \<Rightarrow> \<lparr>status_code = 422, resp_text = ''no page'', resp_json = []\<rparr>)"


subsection \<open>The four collections\<close>

definition opt_param :: "string option \<Rightarrow> pval" where
  "opt_param v = (case v of None \<Rightarrow> PNone | Some s \<Rightarrow> PStr s)"

definition get_commits ::
  "api \<Rightarrow> repository \<Rightarrow> string option \<Rightarrow> string option
     \<Rightarrow> ((error + json list) \<times> request list) option" where
  "get_commits srv repo since until =
     get_all_pages srv repo ''commits''
       [(''since'', opt_param since), (''until'', opt_param until)] 0"

definition repo_get_contributors ::
  "api \<Rightarrow> repository \<Rightarrow> nat \<Rightarrow> bool \<Rightarrow> ((error + json list) \<times> request list) option" where
  "repo_get_contributors srv repo cnt anon =
     get_all_pages srv repo ''contributors'' [(''anon'', PInt (if anon then 1 else 0))] cnt"

definition get_pull_requests ::
  "api \<Rightarrow> repository \<Rightarrow> string \<Rightarrow> string \<Rightarrow> ((error + json list) \<times> request list) option" where
  "get_pull_requests srv repo state sort_by =
     get_all_pages srv repo ''pulls''
       [(''state'', PStr state), (''base'', PStr (branch repo)), (''sort'', PStr sort_by)] 0"

definition get_issues ::
  "api \<Rightarrow> repository \<Rightarrow> string \<Rightarrow> string \<Rightarrow> ((error + json list) \<times> request list) option" where
  "get_issues srv repo state sort_by =
     get_all_pages srv repo ''issues'' [(''state'', PStr state), (''sort'', PStr sort_by)] 0"

section \<open>The analyzer (analyzer.py)\<close>

subsection \<open>Contributor ranking\<close>

text \<open>
  \<open>rating[k] += 1\<close> on a \<open>defaultdict(int)\<close>: read the count (0 when the key is new),
  store the count plus one. A new key goes to the end, an old key keeps its place.
\<close>

definition increment :: "(json \<times> nat) list \<Rightarrow> json \<Rightarrow> (json \<times> nat) list" where
  "increment rating k =
     AList.update k ((case map_of rating k of None \<Rightarrow> 0 | Some n \<Rightarrow> n) + 1) rating"

text \<open>The loop over the commits (lines 135 to 141 of analyzer.py).\<close>

fun count_commits :: "(json \<times> nat) list \<Rightarrow> json list \<Rightarrow> error + (json \<times> nat) list" where
  "count_commits rating [] = Inr rating"
| "count_commits rating (commit # commits) =
     (case subscript commit ''author'' of
        Inl e \<Rightarrow> Inl e
      | Inr author \<Rightarrow>
          if \<not> truthy author then count_commits rating commits
          else (case subscript author ''login'' of
                  Inl e \<Rightarrow> Inl e
                | Inr login \<Rightarrow>
                    if \<not> hashable login then Inl TypeError
                    else count_commits (increment rating login) commits))"

text \<open>
  \<open>rating.sort(key=lambda x: x[1], reverse=True)\<close> is a stable sort by descending
  count: pairs with equal counts keep their order. \<open>sort_key\<close> is a stable insertion
  sort, here on the negated count. \<open>rating[:count]\<close> with a count of at least 0 is
  \<open>take\<close>; the limit is a natural number.
\<close>

definition sort_rating :: "(json \<times> nat) list \<Rightarrow> (json \<times> nat) list" where
  "sort_rating rating = sort_key (\<lambda>x. - int (snd x)) rating"

text \<open>
  What \<open>get_contributors\<close> does with the commits it has fetched (lines 132 to 149);
  the fetch itself is \<open>get_commits\<close>.
\<close>

definition get_contributors_rating :: "json list \<Rightarrow> nat \<Rightarrow> error + (json \<times> nat) list" where
  "get_contributors_rating commits limit =
     (case count_commits [] commits of
        Inl e \<Rightarrow> Inl e
      | Inr rating \<Rightarrow>
          (let rating = sort_rating rating
           in if limit \<noteq> 0 then Inr (take limit rating) else Inr rating))"

text \<open>
  For the statements: whether a commit passes the guard \<open>if not author: continue\<close>, the
  login it is then counted under, and the logins of the counted commits in order.
\<close>

definition has_author :: "json \<Rightarrow> bool" where
  "has_author commit =
     (case subscript commit ''author'' of Inl e \<Rightarrow> False | Inr author \<Rightarrow> truthy author)"

definition author_login :: "json \<Rightarrow> json option" where
  "author_login commit =
     (case subscript commit ''author'' of
        Inl e \<Rightarrow> None
      | Inr author \<Rightarrow>
          if \<not> truthy author then None
          else (case subscript author ''login'' of Inl e \<Rightarrow> None | Inr login \<Rightarrow> Some login))"

definition counted_logins :: "json list \<Rightarrow> json list" where
  "counted_logins commits = List.map_filter author_login commits"

text \<open>A commit as the API sends it, cut down to its author: null, or a user with a login.\<close>

definition commit_by :: "string option \<Rightarrow> json" where
  "commit_by a =
     JObj [(''author'', case a of None \<Rightarrow> JNull | Some l \<Rightarrow> JObj [(''login'', JStr l)])]"

text \<open>The reading "the commit's author is non-null": the key is there and holds no null.\<close>

definition author_non_null :: "json \<Rightarrow> bool" where
  "author_non_null commit =
     (case subscript commit ''author'' of Inl e \<Rightarrow> False | Inr author \<Rightarrow> author \<noteq> JNull)"

text \<open>
  The exception the loop raises at a commit, if any: the \<open>KeyError\<close> or \<open>TypeError\<close> of
  \<open>commit["author"]\<close>, that of \<open>author["login"]\<close> for an author that passes the guard, or
  the \<open>TypeError\<close> of a login that cannot be a key.
\<close>

definition commit_error :: "json \<Rightarrow> error option" where
  "commit_error commit =
     (case subscript commit ''author'' of
        Inl e \<Rightarrow> Some e
      | Inr author \<Rightarrow>
          if \<not> truthy author then None
          else (case subscript author ''login'' of
                  Inl e \<Rightarrow> Some e
                | Inr login \<Rightarrow> if hashable login then None else Some TypeError))"

subsection \<open>Repository URL\<close>

text \<open>
  \<open>re.findall(r"github\.com/([^/]+)/([^\/?]+)", repo_url, re.I)[0]\<close>: the groups of
  the leftmost match, \<open>IndexError\<close> (turned into the input error) when nothing matches.
  The literal is matched ignoring case. \<open>[^/]+\<close> is greedy and must be followed by a
  slash, so the owner is the whole run of characters up to the next slash: a shorter
  owner would be followed by a character that is no slash. The project is the greedy
  run of characters other than slash and question mark; both runs must be non-empty.
\<close>

fun strip_literal :: "string \<Rightarrow> string \<Rightarrow> string option" where
  "strip_literal [] s = Some s"
| "strip_literal (p # ps) [] = None"
| "strip_literal (p # ps) (x # xs) =
     (if to_lower x = to_lower p then strip_literal ps xs else None)"

definition match_here :: "string \<Rightarrow> (string \<times> string) option" where
  "match_here s =
     (case strip_literal ''github.com/'' s of
        None \<Rightarrow> None
      | Some r \<Rightarrow>
          (let owner = takeWhile (\<lambda>c. c \<noteq> CHR ''/'') r;
               r' = dropWhile (\<lambda>c. c \<noteq> CHR ''/'') r
           in if owner = [] then None
              else (case r' of
                      [] \<Rightarrow> None
                    | slash # r'' \<Rightarrow>
                        (let project = takeWhile (\<lambda>c. c \<noteq> CHR ''/'' \<and> c \<noteq> CHR ''?'') r''
                         in if project = [] then None else Some (owner, project)))))"

fun findall_first :: "string \<Rightarrow> (string \<times> string) option" where
  "findall_first [] = match_here []"
| "findall_first (x # xs) =
     (case match_here (x # xs) of Some m \<Rightarrow> Some m | None \<Rightarrow> findall_first xs)"

definition parse_url :: "string \<Rightarrow> error + string \<times> string" where
  "parse_url repo_url =
     (case findall_first repo_url of
        None \<Rightarrow> Inl (AnalyzerError ''Incorrect repository URL'')
      | Some m \<Rightarrow> Inr m)"






subsection \<open>Dates and times\<close>

text \<open>
  A naive \<open>datetime\<close>. Python compares two of them field by field, from the year down
  to the microsecond, which is the lexicographic order of the field lists.
\<close>

record datetime =
  year :: nat
  month :: nat
  day :: nat
  hour :: nat
  minute :: nat
  second :: nat
  microsecond :: nat

definition dt_fields :: "datetime \<Rightarrow> nat list" where
  "dt_fields d = [year d, month d, day d, hour d, minute d, second d, microsecond d]"

definition datetime_lt :: "datetime \<Rightarrow> datetime \<Rightarrow> bool" where
  "datetime_lt a b \<longleftrightarrow> dt_fields a < dt_fields b"

definition datetime_le :: "datetime \<Rightarrow> datetime \<Rightarrow> bool" where
  "datetime_le a b \<longleftrightarrow> dt_fields a \<le> dt_fields b"

text \<open>The proleptic Gregorian calendar of the \<open>datetime\<close> module.\<close>

definition is_leap :: "nat \<Rightarrow> bool" where
  "is_leap y \<longleftrightarrow> y mod 4 = 0 \<and> (y mod 100 \<noteq> 0 \<or> y mod 400 = 0)"

definition month_lengths :: "nat list" where
  "month_lengths = [31, 28, 31, 30, 31, 30, 31, 31, 30, 31, 30, 31]"

definition days_in_month :: "nat \<Rightarrow> nat \<Rightarrow> nat" where
  "days_in_month y m = (if m = 2 \<and> is_leap y then 29 else month_lengths ! (m - 1))"

definition days_before_year :: "nat \<Rightarrow> nat" where
  "days_before_year y = (let p = y - 1 in p * 365 + p div 4 + p div 400 - p div 100)"

definition days_before_month :: "nat \<Rightarrow> nat \<Rightarrow> nat" where
  "days_before_month y m =
     sum_list (take (m - 1) month_lengths) + (if 2 < m \<and> is_leap y then 1 else 0)"

definition ymd2ord :: "nat \<Rightarrow> nat \<Rightarrow> nat \<Rightarrow> nat" where
  "ymd2ord y m d = days_before_year y + days_before_month y m + d"

definition ord2ymd :: "nat \<Rightarrow> nat \<times> nat \<times> nat" where
  "ord2ymd ordinal =
     (let n = ordinal - 1;
          n400 = n div 146097; n = n mod 146097;
          n100 = n div 36524; n = n mod 36524;
          n4 = n div 1461; n = n mod 1461;
          n1 = n div 365; n = n mod 365;
          y = n400 * 400 + 1 + n100 * 100 + n4 * 4 + n1
      in if n1 = 4 \<or> n100 = 4 then (y - 1, 12, 31)
         else
           (let leapyear = (n1 = 3 \<and> (n4 \<noteq> 24 \<or> n100 = 3));
                m = (n + 50) div 32;
                preceding = sum_list (take (m - 1) month_lengths) +
                            (if 2 < m \<and> leapyear then 1 else 0)
            in if n < preceding
               then (y, m - 1,
                     n - (preceding - (month_lengths ! (m - 2) +
                                       (if m - 1 = 2 \<and> leapyear then 1 else 0))) + 1)
               else (y, m, n - preceding + 1)))"

text \<open>
  \<open>dt - timedelta(days=k)\<close>: the date moves by whole days, the time of day stays; a
  result before year 1 or after year 9999 (and any \<open>timedelta\<close> out of range on the
  way) is an \<open>OverflowError\<close>.
\<close>

definition sub_days :: "datetime \<Rightarrow> int \<Rightarrow> error + datetime" where
  "sub_days dt k =
     (let n = int (ymd2ord (year dt) (month dt) (day dt)) - k
      in if 1 \<le> n \<and> n \<le> 3652059
         then (case ord2ymd (nat n) of (y, m, d) \<Rightarrow> Inr (dt\<lparr>year := y, month := m, day := d\<rparr>))
         else Inl OverflowError)"

text \<open>
  \<open>isoformat()\<close> of a datetime: zero-padded fields, the microsecond only when it is
  not 0. The widths are those of a valid datetime (year up to 9999).
\<close>

definition digit_char :: "nat \<Rightarrow> char" where
  "digit_char n = char_of (48 + n mod 10)"

definition pad2 :: "nat \<Rightarrow> string" where
  "pad2 n = [digit_char (n div 10), digit_char n]"

definition pad4 :: "nat \<Rightarrow> string" where
  "pad4 n = [digit_char (n div 1000), digit_char (n div 100), digit_char (n div 10), digit_char n]"

definition iso_date :: "datetime \<Rightarrow> string" where
  "iso_date d = pad4 (year d) @ ''-'' @ pad2 (month d) @ ''-'' @ pad2 (day d)"

definition isoformat :: "datetime \<Rightarrow> string" where
  "isoformat d =
     iso_date d @ ''T'' @ pad2 (hour d) @ '':'' @ pad2 (minute d) @ '':'' @ pad2 (second d) @
     (if microsecond d = 0 then []
      else ''.'' @ pad2 (microsecond d div 10000) @ pad2 (microsecond d div 100) @
           pad2 (microsecond d))"

subsection \<open>strptime\<close>

text \<open>
  \<open>datetime.strptime\<close> turns the format into a regular expression, matches it at the
  start of the string ignoring case, demands that the match ends where the string
  ends, converts the groups with \<open>int\<close> and builds the datetime, whose constructor
  checks the ranges; each failure is a \<open>ValueError\<close>, here \<open>None\<close>. The expression of a
  format is a sequence of items; an item is a list of alternatives tried in order, an
  alternative a sequence of character classes, a class the string of its characters.
  Only the six directives of the two formats in use are modelled.
\<close>

type_synonym item = "char option \<times> string list list"

fun match_alt :: "string list \<Rightarrow> string \<Rightarrow> (string \<times> string) option" where
  "match_alt [] s = Some ([], s)"
| "match_alt (cls # clss) [] = None"
| "match_alt (cls # clss) (x # xs) =
     (if x \<in> set cls
      then (case match_alt clss xs of None \<Rightarrow> None | Some (m, r) \<Rightarrow> Some (x # m, r))
      else None)"

text \<open>
  Backtracking as the \<open>re\<close> module does it: the first alternative with which the rest
  of the expression matches too. The result is the named groups and the unread rest.
\<close>

fun match_items :: "item list \<Rightarrow> string \<Rightarrow> ((char \<times> string) list \<times> string) option" where
  "match_items [] s = Some ([], s)"
| "match_items ((name, []) # its) s = None"
| "match_items ((name, a # alts) # its) s =
     (case match_alt a s of
        None \<Rightarrow> match_items ((name, alts) # its) s
      | Some (m, r) \<Rightarrow>
          (case match_items its r of
             None \<Rightarrow> match_items ((name, alts) # its) s
           | Some (groups, r') \<Rightarrow>
               Some ((case name of None \<Rightarrow> groups | Some n \<Rightarrow> (n, m) # groups), r')))"

definition digit_chars :: string where
  "digit_chars = ''0123456789''"

definition directive :: "char \<Rightarrow> string list list" where
  "directive c =
     (if c = CHR ''Y'' then [[digit_chars, digit_chars, digit_chars, digit_chars]]
      else if c = CHR ''m'' then [[''1'', ''012''], [''0'', ''123456789''], [''123456789'']]
      else if c = CHR ''d'' then [[''3'', ''01''], [''12'', digit_chars], [''0'', ''123456789''],
                                   [''123456789''], ['' '', ''123456789'']]
      else if c = CHR ''H'' then [[''2'', ''0123''], [''01'', digit_chars], [digit_chars]]
      else if c = CHR ''M'' then [[''012345'', digit_chars], [digit_chars]]
      else if c = CHR ''S'' then [[''6'', ''01''], [''012345'', digit_chars], [digit_chars]]
      else [])"

definition literal :: "char \<Rightarrow> item" where
  "literal c = (None, [[[to_lower c, to_upper c]]])"

fun pattern :: "string \<Rightarrow> item list" where
  "pattern [] = []"
| "pattern [c] = [literal c]"
| "pattern (c # d # cs) =
     (if c = CHR ''%'' then (Some d, directive d) # pattern cs
      else literal c # pattern (d # cs))"

text \<open>\<open>int\<close> of a matched group: decimal digits, after the blank a day may start with.\<close>

definition py_int :: "string \<Rightarrow> nat" where
  "py_int s =
     foldl (\<lambda>n c. 10 * n + (of_char c - 48)) 0 (dropWhile (\<lambda>c. c = CHR '' '') s)"

definition group_int :: "(char \<times> string) list \<Rightarrow> char \<Rightarrow> nat \<Rightarrow> nat" where
  "group_int found c dflt = (case map_of found c of None \<Rightarrow> dflt | Some s \<Rightarrow> py_int s)"

definition strptime :: "string \<Rightarrow> string \<Rightarrow> datetime option" where
  "strptime data_string format =
     (case match_items (pattern format) data_string of
        None \<Rightarrow> None
      | Some (found, rest) \<Rightarrow>
          if rest \<noteq> [] then None
          else
            (let y = group_int found CHR ''Y'' 1900;
                 m = group_int found CHR ''m'' 1;
                 d = group_int found CHR ''d'' 1;
                 hh = group_int found CHR ''H'' 0;
                 mm = group_int found CHR ''M'' 0;
                 ss = group_int found CHR ''S'' 0
             in if 1 \<le> y \<and> y \<le> 9999 \<and> 1 \<le> m \<and> m \<le> 12 \<and> 1 \<le> d \<and> d \<le> days_in_month y m \<and>
                   hh \<le> 23 \<and> mm \<le> 59 \<and> ss \<le> 59
                then Some \<lparr>year = y, month = m, day = d, hour = hh, minute = mm, second = ss,
                           microsecond = 0\<rparr>
                else None))"

text \<open>
  \<open>_parse_time\<close> (lines 50 to 64 of analyzer.py). The argument is \<open>None\<close> or a string
  from the command line, or whatever the API sent as \<open>created_at\<close>; a value that is
  true and no string makes \<open>strptime\<close> raise a \<open>TypeError\<close>, which is not caught.
\<close>

definition format_string :: "string \<Rightarrow> string" where
  "format_string source =
     (if source = ''input'' then ''%Y-%m-%d'' else ''%Y-%m-%dT%H:%M:%SZ'')"

definition parse_time :: "json \<Rightarrow> string \<Rightarrow> error + datetime option" where
  "parse_time time_string source =
     (if \<not> truthy time_string then Inr None
      else (case time_string of
              JStr s \<Rightarrow>
                (case strptime s (format_string source) of
                   None \<Rightarrow> Inl (AnalyzerError ''Incorrect date format'')
                 | Some d \<Rightarrow> Inr (Some d))
            | _ \<Rightarrow> Inl TypeError))"

subsection \<open>The analyzer and its date window\<close>

record analyzer =
  date_from :: "datetime option"
  date_to :: "datetime option"
  repo_client :: repository

text \<open>The constructor parses the two dates first, then the URL.\<close>

definition analyzer_init :: "string \<Rightarrow> string \<Rightarrow> json \<Rightarrow> json \<Rightarrow> error + analyzer" where
  "analyzer_init repo_url branch_name from_string to_string =
     (case parse_time from_string ''input'' of
        Inl e \<Rightarrow> Inl e
      | Inr df \<Rightarrow>
          (case parse_time to_string ''input'' of
             Inl e \<Rightarrow> Inl e
           | Inr dt \<Rightarrow>
               (case parse_url repo_url of
                  Inl e \<Rightarrow> Inl e
                | Inr (owner, name) \<Rightarrow>
                    Inr \<lparr>date_from = df, date_to = dt,
                         repo_client = \<lparr>username = owner, project = name, branch = branch_name\<rparr>\<rparr>)))"

text \<open>
  \<open>date < bound\<close> and \<open>date > bound\<close> where the date may be \<open>None\<close> (an empty
  \<open>created_at\<close>): comparing \<open>None\<close> with a datetime is a \<open>TypeError\<close>.
\<close>

definition py_lt :: "datetime option \<Rightarrow> datetime \<Rightarrow> error + bool" where
  "py_lt date bound = (case date of None \<Rightarrow> Inl TypeError | Some d \<Rightarrow> Inr (datetime_lt d bound))"

definition py_gt :: "datetime option \<Rightarrow> datetime \<Rightarrow> error + bool" where
  "py_gt date bound = (case date of None \<Rightarrow> Inl TypeError | Some d \<Rightarrow> Inr (datetime_lt bound d))"

text \<open>
  \<open>__filter_by_date\<close>: \<open>(from and date < from) or (to and date > to)\<close>, evaluated from
  left to right; a bound that is \<open>None\<close> is not compared.
\<close>

definition filter_by_date :: "analyzer \<Rightarrow> datetime option \<Rightarrow> error + bool" where
  "filter_by_date a date =
     (case (case date_from a of None \<Rightarrow> Inr False | Some f \<Rightarrow> py_lt date f) of
        Inl e \<Rightarrow> Inl e
      | Inr before \<Rightarrow>
          if before then Inr False
          else (case (case date_to a of None \<Rightarrow> Inr False | Some t \<Rightarrow> py_gt date t) of
                  Inl e \<Rightarrow> Inl e
                | Inr after \<Rightarrow> if after then Inr False else Inr True))"

subsection \<open>Summaries\<close>

text \<open>
  The loop of \<open>_summarize\<close> (lines 103 to 116) with its three counters, and
  \<open>_summarize\<close> itself, which computes the deadline once, before the loop. \<open>now\<close> is
  the reading of the clock.
\<close>

fun summarize_loop ::
  "analyzer \<Rightarrow> datetime \<Rightarrow> json list \<Rightarrow> nat \<times> nat \<times> nat \<Rightarrow> error + nat \<times> nat \<times> nat" where
  "summarize_loop a deadline [] (opened, closed, stale) = Inr (opened, closed, stale)"
| "summarize_loop a deadline (element # elements) (opened, closed, stale) =
     (case subscript element ''created_at'' of
        Inl e \<Rightarrow> Inl e
      | Inr time_string \<Rightarrow>
          (case parse_time time_string ''api'' of
             Inl e \<Rightarrow> Inl e
           | Inr created_at \<Rightarrow>
               (case filter_by_date a created_at of
                  Inl e \<Rightarrow> Inl e
                | Inr in_period \<Rightarrow>
                    if \<not> in_period then summarize_loop a deadline elements (opened, closed, stale)
                    else (case subscript element ''state'' of
                            Inl e \<Rightarrow> Inl e
                          | Inr state \<Rightarrow>
                              if state = JStr ''open''
                              then (case py_lt created_at deadline of
                                      Inl e \<Rightarrow> Inl e
                                    | Inr old \<Rightarrow>
                                        summarize_loop a deadline elements
                                          (opened + 1, closed, if old then stale + 1 else stale))
                              else summarize_loop a deadline elements
                                     (opened, closed + 1, stale)))))"

definition summarize :: "analyzer \<Rightarrow> datetime \<Rightarrow> json list \<Rightarrow> int \<Rightarrow> error + nat \<times> nat \<times> nat" where
  "summarize a now elements stale_days =
     (case sub_days now stale_days of
        Inl e \<Rightarrow> Inl e
      | Inr deadline \<Rightarrow> summarize_loop a deadline elements (0, 0, 0))"





definition get_contributors ::
  "api \<Rightarrow> analyzer \<Rightarrow> nat \<Rightarrow> ((error + (json \<times> nat) list) \<times> request list) option" where
  "get_contributors srv a limit =
     (let since = map_option (\<lambda>d. isoformat d @ ''Z'') (date_from a);
          until = map_option (\<lambda>d. isoformat d @ ''Z'') (date_to a)
      in case get_commits srv (repo_client a) since until of
           None \<Rightarrow> None
         | Some (Inl e, log) \<Rightarrow> Some (Inl e, log)
         | Some (Inr commits, log) \<Rightarrow> Some (get_contributors_rating commits limit, log))"

subsection \<open>Notions for the statements about summaries\<close>

text \<open>
  The window in the words of the specification: a timestamp is in the window when the
  lower bound is absent or not after it, and the upper bound is absent or not before it.
\<close>

definition in_window :: "analyzer \<Rightarrow> datetime \<Rightarrow> bool" where
  "in_window a ts \<longleftrightarrow>
     (case date_from a of None \<Rightarrow> True | Some f \<Rightarrow> datetime_le f ts) \<and>
     (case date_to a of None \<Rightarrow> True | Some t \<Rightarrow> datetime_le ts t)"

text \<open>
  The timestamp of a record (none when \<open>created_at\<close> is empty, null or unusable), and
  whether the record is in the window; a record without a timestamp can only be asked
  that when there is no bound to compare it with.
\<close>

definition element_time :: "json \<Rightarrow> datetime option" where
  "element_time element =
     (case subscript element ''created_at'' of
        Inl e \<Rightarrow> None
      | Inr time_string \<Rightarrow>
          (case parse_time time_string ''api'' of Inl e \<Rightarrow> None | Inr created_at \<Rightarrow> created_at))"

definition element_in_window :: "analyzer \<Rightarrow> json \<Rightarrow> bool" where
  "element_in_window a element =
     (case element_time element of
        None \<Rightarrow> date_from a = None \<and> date_to a = None
      | Some ts \<Rightarrow> in_window a ts)"

definition is_open :: "json \<Rightarrow> bool" where
  "is_open element \<longleftrightarrow> subscript element ''state'' = Inr (JStr ''open'')"

definition is_old :: "datetime \<Rightarrow> json \<Rightarrow> bool" where
  "is_old deadline element =
     (case element_time element of None \<Rightarrow> False | Some ts \<Rightarrow> datetime_lt ts deadline)"

text \<open>
  A well-formed record has a non-empty \<open>created_at\<close> string in the API format and a
  state; a record with a malformed timestamp has a non-empty \<open>created_at\<close> string that
  the API format does not match.
\<close>

definition well_formed :: "json \<Rightarrow> bool" where
  "well_formed element \<longleftrightarrow>
     (case subscript element ''created_at'' of
        Inr (JStr s) \<Rightarrow> s \<noteq> [] \<and> strptime s (format_string ''api'') \<noteq> None
      | _ \<Rightarrow> False) \<and>
     (case subscript element ''state'' of Inl e \<Rightarrow> False | Inr st \<Rightarrow> True)"


text \<open>A pull request or issue as the API sends it, cut down to the two fields read.\<close>

definition record_of :: "string \<Rightarrow> string \<Rightarrow> json" where
  "record_of created state = JObj [(''created_at'', JStr created), (''state'', JStr state)]"

subsection \<open>Notions for the statements about dates\<close>

text \<open>The ranges the constructor of \<open>datetime\<close> checks.\<close>

definition valid_datetime :: "datetime \<Rightarrow> bool" where
  "valid_datetime d \<longleftrightarrow>
     1 \<le> year d \<and> year d \<le> 9999 \<and> 1 \<le> month d \<and> month d \<le> 12 \<and>
     1 \<le> day d \<and> day d \<le> days_in_month (year d) (month d) \<and>
     hour d \<le> 23 \<and> minute d \<le> 59 \<and> second d \<le> 59 \<and> microsecond d \<le> 999999"

text \<open>
  The two shapes in the words of the specification, \<open>YYYY-MM-DD\<close> and
  \<open>YYYY-MM-DDTHH:MM:SSZ\<close>: a letter of a field stands for one decimal digit, every
  other character for itself.
\<close>

fun spec_shape :: "string \<Rightarrow> string \<Rightarrow> bool" where
  "spec_shape [] [] = True"
| "spec_shape (p # ps) (c # cs) =
     ((if p \<in> set ''YMDHS'' then c \<in> set digit_chars else c = p) \<and> spec_shape ps cs)"
| "spec_shape _ _ = False"







section \<open>Properties of the repository client\<close>

subsection \<open>The pagination loop\<close>


lemma update_update_same: "AList.update k v (AList.update k w al) = AList.update k v al"
  by (induction al) auto

lemma page_request_update [simp]:
  "page_request repo endpoint (AList.update ''page'' w ps) = page_request repo endpoint ps"
  by (rule ext) (simp add: page_request_def update_update_same)

lemma page_response_update [simp]:
  "page_response srv repo endpoint (AList.update ''page'' w ps) = page_response srv repo endpoint ps"
  by (rule ext) (simp add: page_response_def)

lemma pages_data_update [simp]:
  "pages_data srv repo endpoint (AList.update ''page'' w ps) = pages_data srv repo endpoint ps"
  by (intro ext) (simp add: pages_data_def)

lemma pages_data_0 [simp]: "pages_data srv repo endpoint ps p 0 = []"
  by (simp add: pages_data_def)

lemma pages_data_Suc:
  "pages_data srv repo endpoint ps p (Suc k) =
     pages_data srv repo endpoint ps p k @ resp_json (page_response srv repo endpoint ps (p + k))"
  by (simp add: pages_data_def)

lemma pages_data_Suc_front:
  "pages_data srv repo endpoint ps p (Suc k) =
     resp_json (page_response srv repo endpoint ps p) @ pages_data srv repo endpoint ps (Suc p) k"
proof -
  have "[p..<p + Suc k] = p # [Suc p..<Suc p + k]"
    by (simp add: upt_conv_Cons)
  then show ?thesis
    unfolding pages_data_def by (simp del: upt_Suc)
qed

lemma query_page:
  "query srv repo endpoint (AList.update ''page'' (PInt p) ps) =
     (if status_code (page_response srv repo endpoint ps p) \<noteq> 200
      then Inl (RepositoryError (''API request error: '' @ resp_text (page_response srv repo endpoint ps p)))
      else Inr (resp_json (page_response srv repo endpoint ps p)))"
  by (simp add: query_def page_response_def page_request_def Let_def)

text \<open>One unfolding of the loop, in terms of the page's response.\<close>

lemma pages_loop_unfold:
  "pages_loop srv repo endpoint page_size max_results ps p data log =
     (let r = page_response srv repo endpoint ps p;
          log' = log @ [page_request repo endpoint ps p];
          data' = data @ resp_json r
      in if status_code r \<noteq> 200
         then Some (Inl (RepositoryError (''API request error: '' @ resp_text r)), log')
         else if length (resp_json r) < page_size \<or> (max_results \<noteq> 0 \<and> max_results \<le> length data')
         then Some (Inr data', log')
         else pages_loop srv repo endpoint page_size max_results
                (AList.update ''page'' (PInt p) ps) (p + 1) data' log')"
  by (subst pages_loop.simps) (simp add: query_page Let_def page_request_def)

lemma goes_on_update [simp]:
  "goes_on srv repo endpoint page_size max_results (AList.update ''page'' w ps) =
   goes_on srv repo endpoint page_size max_results ps"
  by (intro ext) (simp add: goes_on_def)

lemma pages_loop_update_ps:
  "pages_loop srv repo endpoint page_size max_results (AList.update ''page'' w ps) p data log =
   pages_loop srv repo endpoint page_size max_results ps p data log"
  by (subst (1 2) pages_loop_unfold) (simp add: update_update_same Let_def cong: if_cong)

lemma pages_loop_step:
  "pages_loop srv repo endpoint page_size max_results ps p data log =
     (let r = page_response srv repo endpoint ps p;
          log' = log @ [page_request repo endpoint ps p];
          data' = data @ resp_json r
      in if status_code r \<noteq> 200
         then Some (Inl (RepositoryError (''API request error: '' @ resp_text r)), log')
         else if goes_on srv repo endpoint page_size max_results ps (length data) p
         then pages_loop srv repo endpoint page_size max_results ps (Suc p) data' log'
         else Some (Inr data', log'))"
  by (subst pages_loop_unfold) (auto simp: Let_def pages_loop_update_ps goes_on_def)

lemma pages_loop_run:
  assumes "\<forall>i<k. goes_on srv repo endpoint page_size max_results ps
              (length data + length (pages_data srv repo endpoint ps p i)) (p + i)"
  shows "pages_loop srv repo endpoint page_size max_results ps p data log =
         pages_loop srv repo endpoint page_size max_results ps (p + k)
           (data @ pages_data srv repo endpoint ps p k)
           (log @ map (page_request repo endpoint ps) [p..<p + k])"
  using assms
proof (induction k arbitrary: p data log)
  case 0
  then show ?case by simp
next
  case (Suc k)
  from Suc.prems have first: "goes_on srv repo endpoint page_size max_results ps (length data) p"
    by (auto dest: spec[of _ 0])
  then have ok: "status_code (page_response srv repo endpoint ps p) = 200"
    by (simp add: goes_on_def)
  have rest: "\<forall>i<k. goes_on srv repo endpoint page_size max_results ps
      (length (data @ resp_json (page_response srv repo endpoint ps p)) +
       length (pages_data srv repo endpoint ps (Suc p) i)) (Suc p + i)"
  proof (intro allI impI)
    fix i assume "i < k"
    then have "goes_on srv repo endpoint page_size max_results ps
       (length data + length (pages_data srv repo endpoint ps p (Suc i))) (p + Suc i)"
      using Suc.prems by auto
    then show "goes_on srv repo endpoint page_size max_results ps
      (length (data @ resp_json (page_response srv repo endpoint ps p)) +
       length (pages_data srv repo endpoint ps (Suc p) i)) (Suc p + i)"
      by (simp add: pages_data_Suc_front add.assoc)
  qed
  have "[p..<p + Suc k] = p # [Suc p..<Suc p + k]"
    by (simp add: upt_conv_Cons)
  then show ?case
    using first ok Suc.IH[OF rest, of "log @ [page_request repo endpoint ps p]"]
    by (subst pages_loop_step) (simp add: Let_def pages_data_Suc_front del: upt_Suc)
qed

lemma pages_loop_returns_aux:
  assumes "pages_loop srv repo endpoint page_size max_results ps p data log = Some y"
  shows "\<exists>k. (\<forall>i<k. goes_on srv repo endpoint page_size max_results ps
              (length data + length (pages_data srv repo endpoint ps p i)) (p + i)) \<and>
           snd y = log @ map (page_request repo endpoint ps) [p..<p + Suc k] \<and>
           (if status_code (page_response srv repo endpoint ps (p + k)) \<noteq> 200
            then fst y = Inl (RepositoryError (''API request error: '' @
                         resp_text (page_response srv repo endpoint ps (p + k))))
            else fst y = Inr (data @ pages_data srv repo endpoint ps p (Suc k)) \<and>
                 \<not> goes_on srv repo endpoint page_size max_results ps
                     (length data + length (pages_data srv repo endpoint ps p k)) (p + k))"
  using assms
proof (induction srv repo endpoint page_size max_results ps p data log y
    rule: pages_loop.raw_induct[rotated 1, consumes 1])
  case (1 f srv repo endpoint page_size max_results ps p data log y)
  let ?r = "page_response srv repo endpoint ps p"
  show ?case
  proof (cases "status_code ?r \<noteq> 200")
    case True
    with 1(2) show ?thesis
      by (intro exI[of _ 0]) (auto simp: query_page Let_def page_request_def)
  next
    case ok: False
    show ?thesis
    proof (cases "goes_on srv repo endpoint page_size max_results ps (length data) p")
      case False
      with ok 1(2) show ?thesis
        by (intro exI[of _ 0])
           (auto simp: query_page Let_def page_request_def goes_on_def pages_data_Suc_front)
    next
      case True
      with ok 1(2) have rec: "f srv repo endpoint page_size max_results
           (AList.update ''page'' (PInt p) ps) (p + 1) (data @ resp_json ?r)
           (log @ [page_request repo endpoint ps p]) = Some y"
        by (auto simp: query_page Let_def page_request_def goes_on_def split: if_splits)
      from 1(1)[OF rec] obtain k where
        k1: "\<forall>i<k. goes_on srv repo endpoint page_size max_results ps
              (length (data @ resp_json ?r) + length (pages_data srv repo endpoint ps (p + 1) i)) (p + 1 + i)"
        and k2: "snd y = (log @ [page_request repo endpoint ps p]) @
                   map (page_request repo endpoint ps) [p + 1..<p + 1 + Suc k]"
        and k3: "if status_code (page_response srv repo endpoint ps (p + 1 + k)) \<noteq> 200
            then fst y = Inl (RepositoryError (''API request error: '' @
                         resp_text (page_response srv repo endpoint ps (p + 1 + k))))
            else fst y = Inr ((data @ resp_json ?r) @ pages_data srv repo endpoint ps (p + 1) (Suc k)) \<and>
                 \<not> goes_on srv repo endpoint page_size max_results ps
                     (length (data @ resp_json ?r) + length (pages_data srv repo endpoint ps (p + 1) k)) (p + 1 + k)"
        by (auto cong: if_cong)
      have a: "\<forall>i<Suc k. goes_on srv repo endpoint page_size max_results ps
              (length data + length (pages_data srv repo endpoint ps p i)) (p + i)"
      proof (intro allI impI)
        fix i assume "i < Suc k"
        show "goes_on srv repo endpoint page_size max_results ps
              (length data + length (pages_data srv repo endpoint ps p i)) (p + i)"
        proof (cases i)
          case 0
          then show ?thesis using True by simp
        next
          case (Suc j)
          then have "j < k" using \<open>i < Suc k\<close> by simp
          with k1 Suc show ?thesis
            by (auto simp: pages_data_Suc_front add.assoc)
        qed
      qed
      have b: "[p..<p + Suc (Suc k)] = p # [p + 1..<p + 1 + Suc k]"
        by (simp add: upt_conv_Cons)
      have c: "pages_data srv repo endpoint ps p (Suc (Suc k)) =
               resp_json ?r @ pages_data srv repo endpoint ps (p + 1) (Suc k)"
        using pages_data_Suc_front[of srv repo endpoint ps p "Suc k"] by simp
      have d: "pages_data srv repo endpoint ps p (Suc k) =
               resp_json ?r @ pages_data srv repo endpoint ps (p + 1) k"
        using pages_data_Suc_front[of srv repo endpoint ps p k] by simp
      have e: "p + Suc k = p + 1 + k"
        by simp
      show ?thesis
        apply (rule exI[of _ "Suc k"])
        apply (intro conjI)
          apply (rule a)
         apply (simp only: b k2, simp)
        using k3 apply (simp only: c d e) apply (auto simp: add.assoc split: if_splits)
        done
    qed
  qed
qed


lemma continues_goes_on:
  "continues srv repo endpoint ps max_results (Suc i) \<longleftrightarrow>
     goes_on srv repo endpoint (page_size_of max_results) max_results
       (with_per_page ps (page_size_of max_results))
       (length ([] :: json list) +
        length (pages_data srv repo endpoint (with_per_page ps (page_size_of max_results)) 1 i))
       (1 + i)"
  by (simp add: continues_def)

lemma get_all_pages_loop:
  "get_all_pages srv repo endpoint ps max_results =
     (case pages_loop srv repo endpoint (page_size_of max_results) max_results
             (with_per_page ps (page_size_of max_results)) 1 [] [] of
        None \<Rightarrow> None
      | Some (Inl e, log) \<Rightarrow> Some (Inl e, log)
      | Some (Inr data, log) \<Rightarrow> Some (Inr (capped max_results data), log))"
  by (simp add: get_all_pages_def capped_def Let_def split: option.splits sum.splits prod.splits)

text \<open>What a run that returns has done.\<close>

lemma get_all_pages_returns:
  assumes "get_all_pages srv repo endpoint ps max_results = Some (res, log)"
  shows "\<exists>k. (\<forall>i<k. continues srv repo endpoint ps max_results (Suc i)) \<and>
           log = map (page_request repo endpoint (with_per_page ps (page_size_of max_results)))
                   [1..<Suc (Suc k)] \<and>
           (if status_code (page_response srv repo endpoint
                  (with_per_page ps (page_size_of max_results)) (Suc k)) \<noteq> 200
            then res = Inl (RepositoryError (''API request error: '' @
                         resp_text (page_response srv repo endpoint
                           (with_per_page ps (page_size_of max_results)) (Suc k))))
            else res = Inr (capped max_results (pages_data srv repo endpoint
                              (with_per_page ps (page_size_of max_results)) 1 (Suc k))) \<and>
                 \<not> continues srv repo endpoint ps max_results (Suc k))"
proof -
  let ?ps = "with_per_page ps (page_size_of max_results)"
  from assms obtain y where
    y: "pages_loop srv repo endpoint (page_size_of max_results) max_results ?ps 1 [] [] = Some y"
    and log: "snd y = log"
    and res: "res = (case fst y of Inl e \<Rightarrow> Inl e | Inr d \<Rightarrow> Inr (capped max_results d))"
    by (auto simp: get_all_pages_loop split: option.splits sum.splits prod.splits)
  from pages_loop_returns_aux[OF y] obtain k where
    k: "\<forall>i<k. goes_on srv repo endpoint (page_size_of max_results) max_results ?ps
              (length ([] :: json list) + length (pages_data srv repo endpoint ?ps 1 i)) (1 + i)"
       "snd y = [] @ map (page_request repo endpoint ?ps) [1..<1 + Suc k]"
       "if status_code (page_response srv repo endpoint ?ps (1 + k)) \<noteq> 200
        then fst y = Inl (RepositoryError (''API request error: '' @
                         resp_text (page_response srv repo endpoint ?ps (1 + k))))
        else fst y = Inr ([] @ pages_data srv repo endpoint ?ps 1 (Suc k)) \<and>
             \<not> goes_on srv repo endpoint (page_size_of max_results) max_results ?ps
                 (length ([] :: json list) + length (pages_data srv repo endpoint ?ps 1 k)) (1 + k)"
    by blast
  show ?thesis
  proof (intro exI[of _ k] conjI)
    show "\<forall>i<k. continues srv repo endpoint ps max_results (Suc i)"
      using k(1) by (simp only: continues_goes_on) 
    show "log = map (page_request repo endpoint ?ps) [1..<Suc (Suc k)]"
      using k(2) log by simp
    show "if status_code (page_response srv repo endpoint ?ps (Suc k)) \<noteq> 200
      then res = Inl (RepositoryError (''API request error: '' @
                         resp_text (page_response srv repo endpoint ?ps (Suc k))))
      else res = Inr (capped max_results (pages_data srv repo endpoint ?ps 1 (Suc k))) \<and>
           \<not> continues srv repo endpoint ps max_results (Suc k)"
      using k(3) res by (simp only: continues_goes_on) (auto split: if_splits)
  qed
qed

text \<open>Where a run stops: at the first page that is not answered with a full page below the cap.\<close>

lemma get_all_pages_run:
  assumes "\<forall>i<k. continues srv repo endpoint ps max_results (Suc i)"
    and "\<not> continues srv repo endpoint ps max_results (Suc k)"
  shows "get_all_pages srv repo endpoint ps max_results =
     Some (if status_code (page_response srv repo endpoint
                  (with_per_page ps (page_size_of max_results)) (Suc k)) \<noteq> 200
           then Inl (RepositoryError (''API request error: '' @
                         resp_text (page_response srv repo endpoint
                           (with_per_page ps (page_size_of max_results)) (Suc k))))
           else Inr (capped max_results (pages_data srv repo endpoint
                              (with_per_page ps (page_size_of max_results)) 1 (Suc k))),
           map (page_request repo endpoint (with_per_page ps (page_size_of max_results)))
                   [1..<Suc (Suc k)])"
proof -
  let ?ps = "with_per_page ps (page_size_of max_results)"
  have run: "\<forall>i<k. goes_on srv repo endpoint (page_size_of max_results) max_results ?ps
              (length ([] :: json list) + length (pages_data srv repo endpoint ?ps 1 i)) (1 + i)"
    using assms(1) by (simp only: continues_goes_on)
  have stop: "\<not> goes_on srv repo endpoint (page_size_of max_results) max_results ?ps
                 (length (pages_data srv repo endpoint ?ps 1 k)) (Suc k)"
    using assms(2) by (simp add: continues_def)
  have "pages_loop srv repo endpoint (page_size_of max_results) max_results ?ps 1 [] [] =
        pages_loop srv repo endpoint (page_size_of max_results) max_results ?ps (1 + k)
          ([] @ pages_data srv repo endpoint ?ps 1 k)
          ([] @ map (page_request repo endpoint ?ps) [1..<1 + k])"
    by (rule pages_loop_run[OF run])
  also have "\<dots> = Some (if status_code (page_response srv repo endpoint ?ps (Suc k)) \<noteq> 200
           then Inl (RepositoryError (''API request error: '' @
                         resp_text (page_response srv repo endpoint ?ps (Suc k))))
           else Inr (pages_data srv repo endpoint ?ps 1 (Suc k)),
           map (page_request repo endpoint ?ps) [1..<Suc (Suc k)])"
    using stop by (subst pages_loop_step) (simp add: Let_def pages_data_Suc)
  finally show ?thesis
    by (simp add: get_all_pages_loop)
qed


lemma continues_status:
  "continues srv repo endpoint ps max_results n \<Longrightarrow>
   status_code (page_response srv repo endpoint (with_per_page ps (page_size_of max_results)) n) = 200"
  by (simp add: continues_def goes_on_def)

lemma not_continues_iff:
  assumes "0 < n"
    and "status_code (page_response srv repo endpoint (with_per_page ps (page_size_of max_results)) n) = 200"
  shows "\<not> continues srv repo endpoint ps max_results n \<longleftrightarrow>
     length (resp_json (page_response srv repo endpoint (with_per_page ps (page_size_of max_results)) n))
       < page_size_of max_results \<or>
     (max_results \<noteq> 0 \<and>
      max_results \<le> length (pages_data srv repo endpoint (with_per_page ps (page_size_of max_results)) 1 n))"
proof -
  obtain m where n: "n = Suc m" using assms(1) by (cases n) auto
  show ?thesis
    using assms(2) unfolding n
    by (auto simp: continues_def goes_on_def pages_data_Suc)
qed

lemma continues_below_cap:
  assumes "continues srv repo endpoint ps max_results n" and "0 < n" and "max_results \<noteq> 0"
  shows "length (pages_data srv repo endpoint (with_per_page ps (page_size_of max_results)) 1 n) < max_results"
proof -
  obtain m where n: "n = Suc m" using assms(2) by (cases n) auto
  show ?thesis
    using assms(1,3) unfolding n
    by (auto simp: continues_def goes_on_def pages_data_Suc)
qed

lemma continues_full:
  assumes "continues srv repo endpoint ps max_results n"
  shows "page_size_of max_results \<le>
     length (resp_json (page_response srv repo endpoint (with_per_page ps (page_size_of max_results)) n))"
  using assms by (simp add: continues_def goes_on_def)

text \<open>The shape of every returning run, with the number of requests as the page count.\<close>

lemma get_all_pages_shape:
  assumes "get_all_pages srv repo endpoint ps max_results = Some (res, log)"
  shows "log \<noteq> []"
    and "log = map (page_request repo endpoint (with_per_page ps (page_size_of max_results)))
                 [1..<Suc (length log)]"
    and "\<forall>n\<in>{1..<length log}. continues srv repo endpoint ps max_results n"
    and "\<not> continues srv repo endpoint ps max_results (length log)"
    and "status_code (page_response srv repo endpoint
            (with_per_page ps (page_size_of max_results)) (length log)) \<noteq> 200 \<Longrightarrow>
         res = Inl (RepositoryError (''API request error: '' @
                 resp_text (page_response srv repo endpoint
                    (with_per_page ps (page_size_of max_results)) (length log))))"
    and "status_code (page_response srv repo endpoint
            (with_per_page ps (page_size_of max_results)) (length log)) = 200 \<Longrightarrow>
         res = Inr (capped max_results (pages_data srv repo endpoint
                       (with_per_page ps (page_size_of max_results)) 1 (length log)))"
proof -
  let ?ps = "with_per_page ps (page_size_of max_results)"
  from get_all_pages_returns[OF assms] obtain k where
    k1: "\<forall>i<k. continues srv repo endpoint ps max_results (Suc i)"
    and k2: "log = map (page_request repo endpoint ?ps) [1..<Suc (Suc k)]"
    and k3: "if status_code (page_response srv repo endpoint ?ps (Suc k)) \<noteq> 200
            then res = Inl (RepositoryError (''API request error: '' @
                         resp_text (page_response srv repo endpoint ?ps (Suc k))))
            else res = Inr (capped max_results (pages_data srv repo endpoint ?ps 1 (Suc k))) \<and>
                 \<not> continues srv repo endpoint ps max_results (Suc k)"
    by blast
  have len: "length log = Suc k"
    using k2 by simp
  show "log \<noteq> []" using len by auto
  show "log = map (page_request repo endpoint ?ps) [1..<Suc (length log)]"
    using k2 len by simp
  show "\<forall>n\<in>{1..<length log}. continues srv repo endpoint ps max_results n"
  proof
    fix n assume "n \<in> {1..<length log}"
    then obtain i where "n = Suc i" "i < k"
      using len by (cases n) auto
    then show "continues srv repo endpoint ps max_results n"
      using k1 by simp
  qed
  show "\<not> continues srv repo endpoint ps max_results (length log)"
    using k3 len continues_status[of srv repo endpoint ps max_results "Suc k"]
    by (auto split: if_splits)
  show "res = Inl (RepositoryError (''API request error: '' @
                 resp_text (page_response srv repo endpoint ?ps (length log))))"
    if "status_code (page_response srv repo endpoint ?ps (length log)) \<noteq> 200"
    using k3 len that by (auto split: if_splits)
  show "res = Inr (capped max_results (pages_data srv repo endpoint ?ps 1 (length log)))"
    if "status_code (page_response srv repo endpoint ?ps (length log)) = 200"
    using k3 len that by (auto split: if_splits)
qed

lemma get_all_pages_stops:
  assumes "0 < n"
    and "\<forall>i\<in>{1..<n}. continues srv repo endpoint ps max_results i"
    and "\<not> continues srv repo endpoint ps max_results n"
  shows "get_all_pages srv repo endpoint ps max_results =
     Some (if status_code (page_response srv repo endpoint
                  (with_per_page ps (page_size_of max_results)) n) \<noteq> 200
           then Inl (RepositoryError (''API request error: '' @
                         resp_text (page_response srv repo endpoint
                           (with_per_page ps (page_size_of max_results)) n)))
           else Inr (capped max_results (pages_data srv repo endpoint
                              (with_per_page ps (page_size_of max_results)) 1 n)),
           map (page_request repo endpoint (with_per_page ps (page_size_of max_results)))
                   [1..<Suc n])"
proof -
  obtain k where n: "n = Suc k" using assms(1) by (cases n) auto
  have "\<forall>i<k. continues srv repo endpoint ps max_results (Suc i)"
    using assms(2) n by auto
  from get_all_pages_run[OF this] assms(3) show ?thesis
    unfolding n by blast
qed

lemma per_page_of_request:
  "map_of (snd (page_request repo endpoint (with_per_page ps page_size) n)) ''per_page'' =
     Some (PInt page_size)"
  by (simp add: page_request_def with_per_page_def update_conv')

lemma page_size_of_min: "page_size_of max_results =
  (if max_results = 0 then page_size_const else min page_size_const max_results)"
  by (simp add: page_size_of_def)


lemma continues_iff:
  assumes "0 < n"
  shows "continues srv repo endpoint ps max_results n \<longleftrightarrow>
     status_code (page_response srv repo endpoint (with_per_page ps (page_size_of max_results)) n) = 200 \<and>
     page_size_of max_results \<le>
       length (resp_json (page_response srv repo endpoint (with_per_page ps (page_size_of max_results)) n)) \<and>
     (max_results = 0 \<or>
      length (pages_data srv repo endpoint (with_per_page ps (page_size_of max_results)) 1 n) < max_results)"
proof -
  obtain m where n: "n = Suc m" using assms by (cases n) auto
  show ?thesis
    unfolding n by (auto simp: continues_def goes_on_def pages_data_Suc)
qed

lemma pages_data_3:
  "pages_data srv repo endpoint ps 1 3 =
     resp_json (page_response srv repo endpoint ps 1) @
     resp_json (page_response srv repo endpoint ps 2) @
     resp_json (page_response srv repo endpoint ps 3)"
proof -
  have h: "[1..<1 + 3] = [1, 2, 3::nat]"
    by (simp add: upt_conv_Cons eval_nat_numeral)
  show ?thesis
    unfolding pages_data_def h by simp
qed

lemma pages_data_2:
  "pages_data srv repo endpoint ps 1 2 =
     resp_json (page_response srv repo endpoint ps 1) @
     resp_json (page_response srv repo endpoint ps 2)"
proof -
  have h: "[1..<1 + 2] = [1, 2::nat]"
    by (simp add: upt_conv_Cons eval_nat_numeral)
  show ?thesis
    unfolding pages_data_def h by simp
qed

lemma pages_data_1:
  "pages_data srv repo endpoint ps 1 1 = resp_json (page_response srv repo endpoint ps 1)"
  unfolding pages_data_def by simp

lemma three_pages:
  assumes s: "status_code (page_response srv repo endpoint (with_per_page ps page_size_const) 1) = 200"
      "status_code (page_response srv repo endpoint (with_per_page ps page_size_const) 2) = 200"
      "status_code (page_response srv repo endpoint (with_per_page ps page_size_const) 3) = 200"
    and l: "length (resp_json (page_response srv repo endpoint (with_per_page ps page_size_const) 1)) = 100"
      "length (resp_json (page_response srv repo endpoint (with_per_page ps page_size_const) 2)) = 100"
      "length (resp_json (page_response srv repo endpoint (with_per_page ps page_size_const) 3)) = 37"
  shows "get_all_pages srv repo endpoint ps 0 =
     Some (Inr (resp_json (page_response srv repo endpoint (with_per_page ps page_size_const) 1) @
                resp_json (page_response srv repo endpoint (with_per_page ps page_size_const) 2) @
                resp_json (page_response srv repo endpoint (with_per_page ps page_size_const) 3)),
           [page_request repo endpoint (with_per_page ps page_size_const) 1,
            page_request repo endpoint (with_per_page ps page_size_const) 2,
            page_request repo endpoint (with_per_page ps page_size_const) 3])"
proof -
  have p0: "page_size_of 0 = page_size_const"
    by (simp add: page_size_of_def)
  have c: "\<forall>i\<in>{1..<3}. continues srv repo endpoint ps 0 i"
  proof
    fix i :: nat assume "i \<in> {1..<3}"
    then have "i = 1 \<or> i = 2" by auto
    then show "continues srv repo endpoint ps 0 i"
      using s l by (auto simp: continues_iff p0 page_size_const_def)
  qed
  have n: "\<not> continues srv repo endpoint ps 0 3"
    using s l by (simp add: continues_iff p0 page_size_const_def)
  have u: "[1..<Suc 3] = [1, 2, 3::nat]"
    by (simp add: upt_conv_Cons eval_nat_numeral)
  have "get_all_pages srv repo endpoint ps 0 =
     Some (Inr (capped 0 (pages_data srv repo endpoint (with_per_page ps page_size_const) 1 3)),
           map (page_request repo endpoint (with_per_page ps page_size_const)) [1..<Suc 3])"
    using get_all_pages_stops[OF _ c n] s by (simp add: p0 del: upt_Suc)
  then show ?thesis
    unfolding u pages_data_3 by (simp add: capped_def)
qed

text \<open>
  C3. The paged fetch starts at page 1 and asks for the pages in order; it appends each
  page to the accumulator and goes on as long as the pages are full and the cap (when
  nonzero) is not met; it stops at the first page that is short or meets the cap, and
  returns the accumulated records. An endpoint with pages of 100, 100 and 37 records,
  read with no cap, yields the 237 records after exactly three requests.
\<close>

theorem get_all_pages_paging:
  "(let ps' = with_per_page ps (page_size_of max_results) in
     (\<forall>data log. get_all_pages srv repo endpoint ps max_results = Some (Inr data, log) \<longrightarrow>
        log \<noteq> [] \<and>
        log = map (page_request repo endpoint ps') [1..<Suc (length log)] \<and>
        (\<forall>n\<in>{1..<length log}. continues srv repo endpoint ps max_results n) \<and>
        status_code (page_response srv repo endpoint ps' (length log)) = 200 \<and>
        (length (resp_json (page_response srv repo endpoint ps' (length log))) < page_size_of max_results \<or>
         (max_results \<noteq> 0 \<and>
          max_results \<le> length (pages_data srv repo endpoint ps' 1 (length log)))) \<and>
        data = capped max_results (pages_data srv repo endpoint ps' 1 (length log))) \<and>
     (\<forall>n. 0 < n \<and> (\<forall>i\<in>{1..<n}. continues srv repo endpoint ps max_results i) \<and>
          status_code (page_response srv repo endpoint ps' n) = 200 \<and>
          (length (resp_json (page_response srv repo endpoint ps' n)) < page_size_of max_results \<or>
           (max_results \<noteq> 0 \<and> max_results \<le> length (pages_data srv repo endpoint ps' 1 n))) \<longrightarrow>
        get_all_pages srv repo endpoint ps max_results =
          Some (Inr (capped max_results (pages_data srv repo endpoint ps' 1 n)),
                map (page_request repo endpoint ps') [1..<Suc n]))) \<and>
   (let ps0 = with_per_page ps page_size_const;
        page = (\<lambda>n. resp_json (page_response srv repo endpoint ps0 n)) in
     (\<forall>n\<in>{1, 2, 3}. status_code (page_response srv repo endpoint ps0 n) = 200) \<and>
     length (page 1) = 100 \<and> length (page 2) = 100 \<and> length (page 3) = 37 \<longrightarrow>
       get_all_pages srv repo endpoint ps 0 =
         Some (Inr (page 1 @ page 2 @ page 3),
               [page_request repo endpoint ps0 1, page_request repo endpoint ps0 2,
                page_request repo endpoint ps0 3]) \<and>
       length (page 1 @ page 2 @ page 3) = 237)"
proof -
  let ?ps = "with_per_page ps (page_size_of max_results)"
  have A: "log \<noteq> [] \<and>
        log = map (page_request repo endpoint ?ps) [1..<Suc (length log)] \<and>
        (\<forall>n\<in>{1..<length log}. continues srv repo endpoint ps max_results n) \<and>
        status_code (page_response srv repo endpoint ?ps (length log)) = 200 \<and>
        (length (resp_json (page_response srv repo endpoint ?ps (length log))) < page_size_of max_results \<or>
         (max_results \<noteq> 0 \<and>
          max_results \<le> length (pages_data srv repo endpoint ?ps 1 (length log)))) \<and>
        data = capped max_results (pages_data srv repo endpoint ?ps 1 (length log))"
    if run: "get_all_pages srv repo endpoint ps max_results = Some (Inr data, log)" for data log
  proof -
    note sh = get_all_pages_shape[OF run]
    have ok: "status_code (page_response srv repo endpoint ?ps (length log)) = 200"
      using sh(5) by auto
    have pos: "0 < length log"
      using sh(1) by simp
    show ?thesis
      using sh(1,2,3) sh(6)[OF ok] ok sh(4) not_continues_iff[OF pos ok]
      by blast
  qed
  have B: "get_all_pages srv repo endpoint ps max_results =
          Some (Inr (capped max_results (pages_data srv repo endpoint ?ps 1 n)),
                map (page_request repo endpoint ?ps) [1..<Suc n])"
    if "0 < n" and "\<forall>i\<in>{1..<n}. continues srv repo endpoint ps max_results i"
      and ok: "status_code (page_response srv repo endpoint ?ps n) = 200"
      and "length (resp_json (page_response srv repo endpoint ?ps n)) < page_size_of max_results \<or>
           (max_results \<noteq> 0 \<and> max_results \<le> length (pages_data srv repo endpoint ?ps 1 n))"
    for n
  proof -
    have "\<not> continues srv repo endpoint ps max_results n"
      using that not_continues_iff[OF that(1) ok] by blast
    from get_all_pages_stops[OF that(1,2) this] ok show ?thesis
      by simp
  qed
  have C: "get_all_pages srv repo endpoint ps 0 =
     Some (Inr (resp_json (page_response srv repo endpoint (with_per_page ps page_size_const) 1) @
                resp_json (page_response srv repo endpoint (with_per_page ps page_size_const) 2) @
                resp_json (page_response srv repo endpoint (with_per_page ps page_size_const) 3)),
           [page_request repo endpoint (with_per_page ps page_size_const) 1,
            page_request repo endpoint (with_per_page ps page_size_const) 2,
            page_request repo endpoint (with_per_page ps page_size_const) 3]) \<and>
     length (resp_json (page_response srv repo endpoint (with_per_page ps page_size_const) 1) @
                resp_json (page_response srv repo endpoint (with_per_page ps page_size_const) 2) @
                resp_json (page_response srv repo endpoint (with_per_page ps page_size_const) 3)) = 237"
    if "\<forall>n\<in>{1, 2, 3}. status_code (page_response srv repo endpoint (with_per_page ps page_size_const) n) = 200"
     and "length (resp_json (page_response srv repo endpoint (with_per_page ps page_size_const) 1)) = 100"
      "length (resp_json (page_response srv repo endpoint (with_per_page ps page_size_const) 2)) = 100"
      "length (resp_json (page_response srv repo endpoint (with_per_page ps page_size_const) 3)) = 37"
    using three_pages[of srv repo endpoint ps] that by simp
  show ?thesis
    unfolding Let_def using A B C by blast
qed


theorem get_all_pages_paging_witness:
  "get_all_pages (sized_api [100, 100, 37])
      \<lparr>username = ''octocat'', project = ''Hello-World'', branch = ''master''\<rparr> ''commits'' [] 0 =
     Some (Inr (replicate 237 JNull),
       [(''https://api.github.com/repos/octocat/Hello-World/commits'',
           [(''per_page'', PInt 100), (''page'', PInt 1)]),
        (''https://api.github.com/repos/octocat/Hello-World/commits'',
           [(''per_page'', PInt 100), (''page'', PInt 2)]),
        (''https://api.github.com/repos/octocat/Hello-World/commits'',
           [(''per_page'', PInt 100), (''page'', PInt 3)])]) \<and>
   length (replicate 237 JNull) = 237 \<and>
   capped 0 (pages_data (sized_api [100, 100, 37])
        \<lparr>username = ''octocat'', project = ''Hello-World'', branch = ''master''\<rparr> ''commits''
        (with_per_page [] (page_size_of 0)) 1 3) = replicate 237 JNull"
proof -
  let ?srv = "sized_api [100, 100, 37]"
  let ?repo = "\<lparr>username = ''octocat'', project = ''Hello-World'', branch = ''master''\<rparr>"
  note T = get_all_pages_paging[where srv = ?srv and repo = ?repo and endpoint = "''commits''"
      and ps = "[]" and max_results = 0, unfolded Let_def]
  have ev: "page_response ?srv ?repo ''commits'' (with_per_page [] page_size_const) n =
      \<lparr>status_code = 200, resp_text = [],
       resp_json = replicate (if 0 < n \<and> n \<le> 3 then [100, 100, 37] ! (n - 1) else 0) JNull\<rparr>" for n
    by (simp add: page_response_def page_request_def sized_api_def with_per_page_def)
  have hyp: "(\<forall>n\<in>{1, 2, 3}. status_code (page_response ?srv ?repo ''commits''
                 (with_per_page [] page_size_const) n) = 200) \<and>
     length (resp_json (page_response ?srv ?repo ''commits'' (with_per_page [] page_size_const) 1)) = 100 \<and>
     length (resp_json (page_response ?srv ?repo ''commits'' (with_per_page [] page_size_const) 2)) = 100 \<and>
     length (resp_json (page_response ?srv ?repo ''commits'' (with_per_page [] page_size_const) 3)) = 37"
    by (simp add: ev)
  from T[THEN conjunct2, THEN mp, OF hyp]
  have run: "get_all_pages ?srv ?repo ''commits'' [] 0 =
     Some (Inr (replicate 237 JNull),
        [page_request ?repo ''commits'' (with_per_page [] page_size_const) 1,
         page_request ?repo ''commits'' (with_per_page [] page_size_const) 2,
         page_request ?repo ''commits'' (with_per_page [] page_size_const) 3])"
    by (simp add: ev replicate_add[symmetric])
  from T[THEN conjunct1, THEN conjunct1, THEN spec, THEN spec, THEN mp, OF run]
  have "capped 0 (pages_data ?srv ?repo ''commits''
        (with_per_page [] (page_size_of 0)) 1 3) = replicate 237 JNull"
    by (simp add: numeral_3_eq_3)
  with run show ?thesis
    by (simp add: page_request_def with_per_page_def page_size_const_def request_url_def base_url_def)
qed


lemma full_pages_cap_150:
  assumes "\<forall>n. status_code (page_response srv repo endpoint (with_per_page ps page_size_const) n) = 200 \<and>
               length (resp_json (page_response srv repo endpoint (with_per_page ps page_size_const) n)) = 100"
  shows "get_all_pages srv repo endpoint ps 150 =
     Some (Inr (take 150 (resp_json (page_response srv repo endpoint (with_per_page ps page_size_const) 1) @
                         resp_json (page_response srv repo endpoint (with_per_page ps page_size_const) 2))),
           [page_request repo endpoint (with_per_page ps page_size_const) 1,
            page_request repo endpoint (with_per_page ps page_size_const) 2])"
proof -
  have p0: "page_size_of 150 = page_size_const"
    by (simp add: page_size_of_def page_size_const_def)
  have c: "\<forall>i\<in>{1..<2}. continues srv repo endpoint ps 150 i"
  proof
    fix i :: nat assume "i \<in> {1..<2}"
    then have "i = 1" by auto
    then show "continues srv repo endpoint ps 150 i"
      using assms by (simp add: continues_iff p0 pages_data_Suc page_size_const_def)
  qed
  have n: "\<not> continues srv repo endpoint ps 150 2"
    using assms by (simp add: continues_iff p0 pages_data_2[simplified])
  have u: "[1..<Suc 2] = [1, 2::nat]"
    by (simp add: upt_conv_Cons eval_nat_numeral)
  have "get_all_pages srv repo endpoint ps 150 =
     Some (Inr (capped 150 (pages_data srv repo endpoint (with_per_page ps page_size_const) 1 2)),
           map (page_request repo endpoint (with_per_page ps page_size_const)) [1..<Suc 2])"
    using get_all_pages_stops[OF _ c n] assms by (simp add: p0 del: upt_Suc)
  then show ?thesis
    unfolding u pages_data_2 by (simp add: capped_def)
qed

text \<open>
  C4. With a nonzero cap the page size asked for is the smaller of 100 and the cap;
  every request carries it; as long as fetching goes on the accumulated count is below
  the cap, and the run returns at the first page with which the count reaches it; what
  is returned is the accumulator cut to the cap. An endpoint whose pages are all full
  (100 records), read with a cap of 150, yields exactly 150 records, after two requests.
\<close>

theorem get_all_pages_cap:
  "(max_results \<noteq> 0 \<longrightarrow>
     (let ps' = with_per_page ps (page_size_of max_results) in
      page_size_of max_results = min page_size_const max_results \<and> page_size_const = 100 \<and>
      (\<forall>res log. get_all_pages srv repo endpoint ps max_results = Some (res, log) \<longrightarrow>
         (\<forall>r\<in>set log. map_of (snd r) ''per_page'' = Some (PInt (min 100 max_results))) \<and>
         (\<forall>n\<in>{1..<length log}. length (pages_data srv repo endpoint ps' 1 n) < max_results) \<and>
         (\<forall>data. res = Inr data \<longrightarrow>
            data = take max_results (pages_data srv repo endpoint ps' 1 (length log)) \<and>
            length data \<le> max_results)) \<and>
      (\<forall>n. 0 < n \<and> (\<forall>i\<in>{1..<n}. continues srv repo endpoint ps max_results i) \<and>
           status_code (page_response srv repo endpoint ps' n) = 200 \<and>
           max_results \<le> length (pages_data srv repo endpoint ps' 1 n) \<longrightarrow>
         get_all_pages srv repo endpoint ps max_results =
           Some (Inr (take max_results (pages_data srv repo endpoint ps' 1 n)),
                 map (page_request repo endpoint ps') [1..<Suc n]) \<and>
         length (take max_results (pages_data srv repo endpoint ps' 1 n)) = max_results))) \<and>
   (let ps0 = with_per_page ps page_size_const;
        page = (\<lambda>n. resp_json (page_response srv repo endpoint ps0 n)) in
     (\<forall>n. status_code (page_response srv repo endpoint ps0 n) = 200 \<and> length (page n) = 100) \<longrightarrow>
       get_all_pages srv repo endpoint ps 150 =
         Some (Inr (take 150 (page 1 @ page 2)),
               [page_request repo endpoint ps0 1, page_request repo endpoint ps0 2]) \<and>
       length (take 150 (page 1 @ page 2)) = 150)"
proof -
  let ?ps = "with_per_page ps (page_size_of max_results)"
  have A: "page_size_of max_results = min page_size_const max_results" if "max_results \<noteq> 0"
    using that by (simp add: page_size_of_def)
  have B: "(\<forall>r\<in>set log. map_of (snd r) ''per_page'' = Some (PInt (min 100 max_results))) \<and>
         (\<forall>n\<in>{1..<length log}. length (pages_data srv repo endpoint ?ps 1 n) < max_results) \<and>
         (\<forall>data. res = Inr data \<longrightarrow>
            data = take max_results (pages_data srv repo endpoint ?ps 1 (length log)) \<and>
            length data \<le> max_results)"
    if nz: "max_results \<noteq> 0"
      and run: "get_all_pages srv repo endpoint ps max_results = Some (res, log)" for res log
  proof -
    note sh = get_all_pages_shape[OF run]
    have 1: "\<forall>r\<in>set log. map_of (snd r) ''per_page'' = Some (PInt (min 100 max_results))"
    proof
      fix r assume "r \<in> set log"
      then obtain n where "r = page_request repo endpoint ?ps n"
        using sh(2) by (metis (no_types, lifting) imageE list.set_map)
      then show "map_of (snd r) ''per_page'' = Some (PInt (min 100 max_results))"
        using A[OF nz] by (simp add: per_page_of_request page_size_const_def)
    qed
    have 2: "\<forall>n\<in>{1..<length log}. length (pages_data srv repo endpoint ?ps 1 n) < max_results"
      using sh(3) nz continues_below_cap by auto
    have 3: "data = take max_results (pages_data srv repo endpoint ?ps 1 (length log)) \<and>
            length data \<le> max_results" if "res = Inr data" for data
    proof -
      have "status_code (page_response srv repo endpoint ?ps (length log)) = 200"
        using sh(5) that by auto
      from sh(6)[OF this] that nz show ?thesis
        by (simp add: capped_def)
    qed
    from 1 2 3 show ?thesis by blast
  qed
  have C: "get_all_pages srv repo endpoint ps max_results =
           Some (Inr (take max_results (pages_data srv repo endpoint ?ps 1 n)),
                 map (page_request repo endpoint ?ps) [1..<Suc n]) \<and>
         length (take max_results (pages_data srv repo endpoint ?ps 1 n)) = max_results"
    if nz: "max_results \<noteq> 0" and pos: "0 < n"
      and c: "\<forall>i\<in>{1..<n}. continues srv repo endpoint ps max_results i"
      and ok: "status_code (page_response srv repo endpoint ?ps n) = 200"
      and cap: "max_results \<le> length (pages_data srv repo endpoint ?ps 1 n)" for n
  proof -
    have "\<not> continues srv repo endpoint ps max_results n"
      using not_continues_iff[OF pos ok] nz cap by blast
    from get_all_pages_stops[OF pos c this] ok nz cap show ?thesis
      by (simp add: capped_def)
  qed
  have D: "get_all_pages srv repo endpoint ps 150 =
         Some (Inr (take 150 (resp_json (page_response srv repo endpoint (with_per_page ps page_size_const) 1) @
                         resp_json (page_response srv repo endpoint (with_per_page ps page_size_const) 2))),
               [page_request repo endpoint (with_per_page ps page_size_const) 1,
                page_request repo endpoint (with_per_page ps page_size_const) 2]) \<and>
       length (take 150 (resp_json (page_response srv repo endpoint (with_per_page ps page_size_const) 1) @
                         resp_json (page_response srv repo endpoint (with_per_page ps page_size_const) 2))) = 150"
    if "\<forall>n. status_code (page_response srv repo endpoint (with_per_page ps page_size_const) n) = 200 \<and>
               length (resp_json (page_response srv repo endpoint (with_per_page ps page_size_const) n)) = 100"
    using full_pages_cap_150[OF that] that by simp
  show ?thesis
    unfolding Let_def using A B C D by (simp add: page_size_const_def)
qed


theorem get_all_pages_cap_witness:
  "(150::nat) \<noteq> 0 \<and>
   get_all_pages full_api
      \<lparr>username = ''octocat'', project = ''Hello-World'', branch = ''master''\<rparr>
      ''contributors'' [(''anon'', PInt 0)] 150 =
     Some (Inr (replicate 150 JNull),
       [(''https://api.github.com/repos/octocat/Hello-World/contributors'',
           [(''anon'', PInt 0), (''per_page'', PInt 100), (''page'', PInt 1)]),
        (''https://api.github.com/repos/octocat/Hello-World/contributors'',
           [(''anon'', PInt 0), (''per_page'', PInt 100), (''page'', PInt 2)])]) \<and>
   length (replicate 150 JNull) = 150 \<and>
   page_size_of 150 = min page_size_const 150 \<and>
   map_of [(''anon'', PInt 0), (''per_page'', PInt 100), (''page'', PInt 2)] ''per_page'' =
     Some (PInt (min 100 150))"
proof -
  let ?repo = "\<lparr>username = ''octocat'', project = ''Hello-World'', branch = ''master''\<rparr>"
  let ?ps = "[(''anon'', PInt 0)]"
  note T = get_all_pages_cap[where srv = full_api and repo = ?repo and endpoint = "''contributors''"
      and ps = ?ps and max_results = 150, unfolded Let_def]
  have ev: "page_response full_api ?repo ''contributors'' (with_per_page ?ps page_size_const) n =
      \<lparr>status_code = 200, resp_text = [], resp_json = replicate 100 JNull\<rparr>" for n
    by (simp add: page_response_def page_request_def full_api_def)
  have hyp: "\<forall>n. status_code (page_response full_api ?repo ''contributors''
                 (with_per_page ?ps page_size_const) n) = 200 \<and>
     length (resp_json (page_response full_api ?repo ''contributors''
                 (with_per_page ?ps page_size_const) n)) = 100"
    by (simp add: ev)
  have nz: "(150::nat) \<noteq> 0" by simp
  from T[THEN conjunct2, THEN mp, OF hyp]
  have run: "get_all_pages full_api ?repo ''contributors'' ?ps 150 =
     Some (Inr (replicate 150 JNull),
        [page_request ?repo ''contributors'' (with_per_page ?ps page_size_const) 1,
         page_request ?repo ''contributors'' (with_per_page ?ps page_size_const) 2])"
    by (simp add: ev replicate_add[symmetric])
  from T[THEN conjunct1, THEN mp, OF nz]
  have sz: "page_size_of 150 = min page_size_const 150"
    by blast
  from T[THEN conjunct1, THEN mp, OF nz, THEN conjunct2, THEN conjunct2, THEN conjunct1,
      THEN spec, THEN spec, THEN mp, OF run]
  have "map_of (snd (page_request ?repo ''contributors'' (with_per_page ?ps page_size_const) 2))
          ''per_page'' = Some (PInt (min 100 150))"
    by simp
  with run sz show ?thesis
    by (simp add: page_request_def with_per_page_def page_size_const_def request_url_def base_url_def)
qed


text \<open>A request that is answered with another status than 200 is the last one of its run.\<close>

lemma get_all_pages_non200:
  assumes run: "get_all_pages srv repo endpoint ps max_results = Some (res, log)"
    and r: "r \<in> set log" and bad: "status_code (srv r) \<noteq> 200"
  shows "res = Inl (RepositoryError (''API request error: '' @ resp_text (srv r)))"
    and "r = last log"
proof -
  let ?ps = "with_per_page ps (page_size_of max_results)"
  note sh = get_all_pages_shape[OF run]
  from r sh(2) obtain n where n: "n \<in> set [1..<Suc (length log)]"
    and rn: "r = page_request repo endpoint ?ps n"
    by (metis (no_types, lifting) imageE list.set_map)
  have "n = length log"
  proof (rule ccontr)
    assume "n \<noteq> length log"
    with n have "n \<in> {1..<length log}" by auto
    with sh(3) have "continues srv repo endpoint ps max_results n" by blast
    from continues_status[OF this] bad rn show False
      by (simp add: page_response_def)
  qed
  with rn have rl: "r = page_request repo endpoint ?ps (length log)" by simp
  then have "status_code (page_response srv repo endpoint ?ps (length log)) \<noteq> 200"
    using bad by (simp add: page_response_def)
  from sh(5)[OF this] rl
  show "res = Inl (RepositoryError (''API request error: '' @ resp_text (srv r)))"
    by (simp add: page_response_def)
  have "last log = page_request repo endpoint ?ps (length log)"
    using sh(1) sh(2) by (metis (no_types, lifting) last_map last_upt length_greater_0_conv
        less_Suc_eq_0_disj diff_Suc_1 length_map length_upt map_is_Nil_conv upt_eq_Nil_conv not_less)
  with rl show "r = last log" by simp
qed


text \<open>
  C8. A page request that is answered with a status other than 200 ends the fetch with
  the query error that carries the response's body text: the run returns no record
  list, however many pages were fetched before. This holds for the paged fetch and so
  for each of the four collection operations.
\<close>

theorem fetch_error_aborts:
  "(\<forall>res log r. get_all_pages srv repo endpoint ps max_results = Some (res, log) \<and> r \<in> set log \<and>
        status_code (srv r) \<noteq> 200 \<longrightarrow>
      res = Inl (RepositoryError (''API request error: '' @ resp_text (srv r))) \<and> r = last log) \<and>
   (\<forall>n. 0 < n \<and> (\<forall>i\<in>{1..<n}. continues srv repo endpoint ps max_results i) \<and>
        status_code (page_response srv repo endpoint
           (with_per_page ps (page_size_of max_results)) n) \<noteq> 200 \<longrightarrow>
      get_all_pages srv repo endpoint ps max_results =
        Some (Inl (RepositoryError (''API request error: '' @
                resp_text (page_response srv repo endpoint
                   (with_per_page ps (page_size_of max_results)) n))),
              map (page_request repo endpoint (with_per_page ps (page_size_of max_results)))
                [1..<Suc n])) \<and>
   (\<forall>res log r. get_commits srv repo since until = Some (res, log) \<and> r \<in> set log \<and>
        status_code (srv r) \<noteq> 200 \<longrightarrow>
      res = Inl (RepositoryError (''API request error: '' @ resp_text (srv r)))) \<and>
   (\<forall>res log r. repo_get_contributors srv repo cnt anon = Some (res, log) \<and> r \<in> set log \<and>
        status_code (srv r) \<noteq> 200 \<longrightarrow>
      res = Inl (RepositoryError (''API request error: '' @ resp_text (srv r)))) \<and>
   (\<forall>res log r. get_pull_requests srv repo state sort_by = Some (res, log) \<and> r \<in> set log \<and>
        status_code (srv r) \<noteq> 200 \<longrightarrow>
      res = Inl (RepositoryError (''API request error: '' @ resp_text (srv r)))) \<and>
   (\<forall>res log r. get_issues srv repo state sort_by = Some (res, log) \<and> r \<in> set log \<and>
        status_code (srv r) \<noteq> 200 \<longrightarrow>
      res = Inl (RepositoryError (''API request error: '' @ resp_text (srv r))))"
proof -
  have A: "res = Inl (RepositoryError (''API request error: '' @ resp_text (srv r))) \<and> r = last log"
    if "get_all_pages srv repo e p m = Some (res, log)" "r \<in> set log" "status_code (srv r) \<noteq> 200"
    for res log r e p m
    using get_all_pages_non200[OF that] by simp
  have B: "get_all_pages srv repo endpoint ps max_results =
        Some (Inl (RepositoryError (''API request error: '' @
                resp_text (page_response srv repo endpoint
                   (with_per_page ps (page_size_of max_results)) n))),
              map (page_request repo endpoint (with_per_page ps (page_size_of max_results)))
                [1..<Suc n])"
    if pos: "0 < n" and c: "\<forall>i\<in>{1..<n}. continues srv repo endpoint ps max_results i"
      and bad: "status_code (page_response srv repo endpoint
           (with_per_page ps (page_size_of max_results)) n) \<noteq> 200" for n
  proof -
    have "\<not> continues srv repo endpoint ps max_results n"
      using continues_status bad by blast
    from get_all_pages_stops[OF pos c this] bad show ?thesis by simp
  qed
  show ?thesis
    unfolding get_commits_def repo_get_contributors_def get_pull_requests_def get_issues_def
    using A B by blast
qed

theorem fetch_error_aborts_witness:
  "get_issues (failing_api 3)
      \<lparr>username = ''octocat'', project = ''Hello-World'', branch = ''master''\<rparr> ''all'' ''created'' =
     Some (Inl (RepositoryError ''API request error: Server Error''),
       [(''https://api.github.com/repos/octocat/Hello-World/issues'',
           [(''state'', PStr ''all''), (''sort'', PStr ''created''), (''per_page'', PInt 100), (''page'', PInt 1)]),
        (''https://api.github.com/repos/octocat/Hello-World/issues'',
           [(''state'', PStr ''all''), (''sort'', PStr ''created''), (''per_page'', PInt 100), (''page'', PInt 2)]),
        (''https://api.github.com/repos/octocat/Hello-World/issues'',
           [(''state'', PStr ''all''), (''sort'', PStr ''created''), (''per_page'', PInt 100), (''page'', PInt 3)])]) \<and>
   status_code (failing_api 3 (''https://api.github.com/repos/octocat/Hello-World/issues'',
           [(''state'', PStr ''all''), (''sort'', PStr ''created''), (''per_page'', PInt 100), (''page'', PInt 3)])) = 500 \<and>
   (500::nat) \<noteq> 200"
proof -
  let ?repo = "\<lparr>username = ''octocat'', project = ''Hello-World'', branch = ''master''\<rparr>"
  let ?ps = "[(''state'', PStr ''all''), (''sort'', PStr ''created'')]"
  note T = fetch_error_aborts[where srv = "failing_api 3" and repo = ?repo and endpoint = "''issues''"
      and ps = ?ps and max_results = 0]
  have p0: "page_size_of 0 = 100"
    by (simp add: page_size_of_def page_size_const_def)
  have ev: "page_response (failing_api 3) ?repo ''issues'' (with_per_page ?ps 100) n =
      (if n < 3 then \<lparr>status_code = 200, resp_text = [], resp_json = replicate 100 JNull\<rparr>
       else \<lparr>status_code = 500, resp_text = ''Server Error'', resp_json = []\<rparr>)" for n
    by (simp add: page_response_def page_request_def failing_api_def with_per_page_def)
  have c: "\<forall>i\<in>{1..<3}. continues (failing_api 3) ?repo ''issues'' ?ps 0 i"
    by (auto simp: continues_iff p0 ev)
  have hyp: "0 < (3::nat) \<and> (\<forall>i\<in>{1..<3}. continues (failing_api 3) ?repo ''issues'' ?ps 0 i) \<and>
     status_code (page_response (failing_api 3) ?repo ''issues''
           (with_per_page ?ps (page_size_of 0)) 3) \<noteq> 200"
    using c by (simp add: p0 ev)
  have u: "[1..<Suc 3] = [1, 2, 3::nat]"
    by (simp add: upt_conv_Cons eval_nat_numeral)
  from T[THEN conjunct2, THEN conjunct1, THEN spec, THEN mp, OF hyp]
  have run: "get_all_pages (failing_api 3) ?repo ''issues'' ?ps 0 =
        Some (Inl (RepositoryError ''API request error: Server Error''),
          map (page_request ?repo ''issues'' (with_per_page ?ps 100)) [1, 2, 3])"
    unfolding u by (simp add: p0 ev)
  show ?thesis
    using run
    by (simp add: get_issues_def page_request_def with_per_page_def request_url_def base_url_def
        failing_api_def)
qed

section \<open>Properties of the contributor ranking\<close>


subsection \<open>The rating dictionary\<close>

lemma increment_keys:
  "map fst (increment rating k) =
     (if k \<in> set (map fst rating) then map fst rating else map fst rating @ [k])"
  by (simp add: increment_def update_keys)

lemma increment_map_of:
  "map_of (increment rating k) =
     (map_of rating)(k \<mapsto> (case map_of rating k of None \<Rightarrow> 0 | Some n \<Rightarrow> n) + 1)"
  by (simp add: increment_def update_conv')

lemma increment_distinct:
  "distinct (map fst rating) \<Longrightarrow> distinct (map fst (increment rating k))"
  by (simp add: increment_def distinct_update)

lemma update_sum:
  "sum_list (map snd (AList.update k v al)) + (case map_of al k of None \<Rightarrow> 0 | Some n \<Rightarrow> n) =
   sum_list (map snd al) + (v::nat)"
  by (induction al) auto

lemma increment_sum:
  "sum_list (map snd (increment rating k)) = Suc (sum_list (map snd rating))"
  using update_sum[of k "(case map_of rating k of None \<Rightarrow> 0 | Some n \<Rightarrow> n) + 1" rating]
  by (simp add: increment_def)

text \<open>Counting a list of logins from the empty dictionary.\<close>

lemma tally_props:
  "distinct (map fst (foldl increment [] ls)) \<and>
   map fst (foldl increment [] ls) = rev (remdups (rev ls)) \<and>
   (\<forall>k. map_of (foldl increment [] ls) k =
        (if k \<in> set ls then Some (count_list ls k) else None)) \<and>
   sum_list (map snd (foldl increment [] ls)) = length ls"
proof (induction ls rule: rev_induct)
  case Nil
  then show ?case by simp
next
  case (snoc k ls)
  let ?r = "foldl increment [] ls"
  from snoc have d: "distinct (map fst ?r)"
    and keys: "map fst ?r = rev (remdups (rev ls))"
    and cnt: "\<And>j. map_of ?r j = (if j \<in> set ls then Some (count_list ls j) else None)"
    and sum: "sum_list (map snd ?r) = length ls"
    by auto
  have ks: "set (map fst ?r) = set ls"
    using keys by simp
  have 1: "distinct (map fst (increment ?r k))"
    by (rule increment_distinct[OF d])
  have 2: "map fst (increment ?r k) = rev (remdups (rev (ls @ [k])))"
    unfolding increment_keys ks using keys by simp
  have 3: "map_of (increment ?r k) j =
      (if j \<in> set (ls @ [k]) then Some (count_list (ls @ [k]) j) else None)" for j
    by (simp add: increment_map_of cnt)
  have 4: "sum_list (map snd (increment ?r k)) = length (ls @ [k])"
    by (simp add: increment_sum sum)
  from 1 2 3 4 show ?case by simp
qed

lemma tally_entries:
  assumes "(k, n) \<in> set (foldl increment [] ls)"
  shows "k \<in> set ls \<and> n = count_list ls k \<and> 1 \<le> n"
proof -
  have "distinct (map fst (foldl increment [] ls))"
    using tally_props[of ls] by blast
  then have "map_of (foldl increment [] ls) k = Some n"
    using assms by (rule map_of_is_SomeI)
  then have "k \<in> set ls" "n = count_list ls k"
    using tally_props[of ls] by (auto split: if_splits)
  moreover have "0 < count_list ls k"
    using \<open>k \<in> set ls\<close> count_list_0_iff[of ls k] by auto
  ultimately show ?thesis by simp
qed

subsection \<open>The loop over the commits\<close>

lemma count_commits_foldl:
  "count_commits rating commits = Inr r \<Longrightarrow>
     r = foldl increment rating (counted_logins commits) \<and>
     length (counted_logins commits) = length (filter has_author commits)"
proof (induction commits arbitrary: rating)
  case Nil
  then show ?case by (simp add: counted_logins_def)
next
  case (Cons c cs)
  then show ?case
    by (auto simp: counted_logins_def author_login_def has_author_def
        split: sum.splits if_splits)
qed


subsection \<open>Sorting by descending count\<close>

lemma sort_rating_sorted: "sorted_wrt (\<lambda>x y. snd y \<le> snd x) (sort_rating rating)"
proof -
  have "sorted (map (\<lambda>x. - int (snd x)) (sort_rating rating))"
    unfolding sort_rating_def by (rule sorted_sort_key)
  then show ?thesis
    by (simp add: sorted_map)
qed

lemma sort_rating_mset: "mset (sort_rating rating) = mset rating"
  by (simp add: sort_rating_def)

lemma sort_rating_stable:
  "filter (\<lambda>x. snd x = n) (sort_rating rating) = filter (\<lambda>x. snd x = n) rating"
proof -
  have "filter (\<lambda>x. - int (snd x) = - int n) (sort_rating rating) =
        filter (\<lambda>x. - int (snd x) = - int n) rating"
    unfolding sort_rating_def by (rule sort_key_stable)
  then show ?thesis by simp
qed

lemma sort_rating_sum: "sum_list (map snd (sort_rating rating)) = sum_list (map snd rating)"
proof -
  have "mset (map snd (sort_rating rating)) = mset (map snd rating)"
    by (simp add: sort_rating_mset)
  then show ?thesis
    by (metis sum_mset_sum_list)
qed

lemma sort_rating_distinct:
  "distinct (map fst (sort_rating rating)) = distinct (map fst rating)"
proof -
  have "mset (map fst (sort_rating rating)) = mset (map fst rating)"
    by (simp add: sort_rating_mset)
  then show ?thesis
    by (rule mset_eq_imp_distinct_iff)
qed

lemma sort_rating_set: "set (sort_rating rating) = set rating"
  by (simp add: sort_rating_def)

subsection \<open>The ranking\<close>

lemma get_contributors_rating_Inr:
  assumes "get_contributors_rating commits limit = Inr ranking"
  shows "ranking = (if limit \<noteq> 0
                    then take limit (sort_rating (foldl increment [] (counted_logins commits)))
                    else sort_rating (foldl increment [] (counted_logins commits)))"
    and "length (counted_logins commits) = length (filter has_author commits)"
  using assms count_commits_foldl[of "[]" commits]
  by (auto simp: get_contributors_rating_def Let_def split: sum.splits if_splits)

lemma count_commits_skip:
  assumes "subscript c ''author'' = Inr a" and "\<not> truthy a"
  shows "count_commits rating (pre @ c # post) = count_commits rating (pre @ post)"
  using assms by (induction pre arbitrary: rating) (auto split: sum.splits)

lemma count_commits_commit_by:
  "count_commits rating (map commit_by as) =
     Inr (foldl increment rating (map JStr (List.map_filter id as)))"
proof (induction as arbitrary: rating)
  case Nil
  then show ?case by simp
next
  case (Cons a as)
  then show ?case
    by (cases a) (simp_all add: commit_by_def)
qed


text \<open>
  C10, as stated, fails: the guard of the loop is \<open>if not author\<close>, so a commit whose
  author is an empty object is skipped although its author is not null. Here the
  counts sum to 0 while one commit has a non-null author.
\<close>

theorem ranking_sum_counterexample:
  "get_contributors_rating [JObj [(''author'', JObj [])]] 0 = Inr [] \<and>
   sum_list (map snd ([] :: (json \<times> nat) list)) = 0 \<and>
   length (filter author_non_null [JObj [(''author'', JObj [])]]) = 1"
  by (simp add: get_contributors_rating_def sort_rating_def author_non_null_def)

text \<open>
  C10, amended. In the ranking that \<open>get_contributors\<close> returns with limit 0 every
  login stands at most once, every count is at least 1, and the counts sum to the
  number of commits that pass the guard, that is, whose author is neither null nor
  another empty value. Where no author is an empty value other than null this is the
  number of commits with a non-null author.
\<close>

theorem ranking_sum:
  assumes "get_contributors_rating commits 0 = Inr ranking"
  shows "distinct (map fst ranking) \<and>
         (\<forall>p\<in>set ranking. 1 \<le> snd p) \<and>
         sum_list (map snd ranking) = length (filter has_author commits) \<and>
         ((\<forall>c\<in>set commits. has_author c = author_non_null c) \<longrightarrow>
            sum_list (map snd ranking) = length (filter author_non_null commits))"
proof -
  let ?ls = "counted_logins commits"
  let ?r = "foldl increment [] ?ls"
  note r = get_contributors_rating_Inr[OF assms]
  have rk: "ranking = sort_rating ?r"
    using r(1) by simp
  have 1: "distinct (map fst ranking)"
    unfolding rk sort_rating_distinct using tally_props[of ?ls] by blast
  have 2: "\<forall>p\<in>set ranking. 1 \<le> snd p"
  proof
    fix p assume "p \<in> set ranking"
    then have "(fst p, snd p) \<in> set ?r"
      unfolding rk sort_rating_set by simp
    from tally_entries[OF this] show "1 \<le> snd p" by simp
  qed
  have 3: "sum_list (map snd ranking) = length (filter has_author commits)"
    unfolding rk sort_rating_sum using tally_props[of ?ls] r(2) by simp
  have 4: "sum_list (map snd ranking) = length (filter author_non_null commits)"
    if "\<forall>c\<in>set commits. has_author c = author_non_null c"
  proof -
    have "filter has_author commits = filter author_non_null commits"
      using that by (intro filter_cong) auto
    with 3 show ?thesis by simp
  qed
  from 1 2 3 4 show ?thesis by blast
qed

theorem ranking_sum_witness:
  "get_contributors_rating
      [commit_by (Some ''alice''), commit_by None, JObj [(''author'', JObj [])],
       commit_by (Some ''bob''), commit_by (Some ''alice'')] 0 =
     Inr [(JStr ''alice'', 2), (JStr ''bob'', 1)] \<and>
   distinct (map fst [(JStr ''alice'', 2 :: nat), (JStr ''bob'', 1)]) \<and>
   sum_list (map snd [(JStr ''alice'', 2 :: nat), (JStr ''bob'', 1)]) =
     length (filter has_author
       [commit_by (Some ''alice''), commit_by None, JObj [(''author'', JObj [])],
        commit_by (Some ''bob''), commit_by (Some ''alice'')])"
proof -
  have run: "get_contributors_rating
      [commit_by (Some ''alice''), commit_by None, JObj [(''author'', JObj [])],
       commit_by (Some ''bob''), commit_by (Some ''alice'')] 0 =
     Inr [(JStr ''alice'', 2), (JStr ''bob'', 1)]"
    by (simp add: get_contributors_rating_def sort_rating_def commit_by_def increment_def)
  from ranking_sum[OF run] run show ?thesis
    by blast
qed


section \<open>Properties of the URL parser\<close>



































section \<open>Properties of the summaries\<close>


subsection \<open>The window\<close>

lemma datetime_not_lt: "\<not> datetime_lt a b \<longleftrightarrow> datetime_le b a"
  by (simp add: datetime_lt_def datetime_le_def not_less)

lemma filter_by_date_Some: "filter_by_date a (Some ts) = Inr (in_window a ts)"
  by (cases "date_from a"; cases "date_to a")
     (auto simp: filter_by_date_def in_window_def py_lt_def py_gt_def datetime_not_lt[symmetric])

lemma filter_by_date_None:
  "filter_by_date a None =
     (if date_from a = None \<and> date_to a = None then Inr True else Inl TypeError)"
  by (cases "date_from a"; cases "date_to a")
     (auto simp: filter_by_date_def py_lt_def py_gt_def)

subsection \<open>One record\<close>

lemma summarize_loop_step:
  assumes "summarize_loop a dl (e # es) (opened, closed, stale) = Inr r"
  shows "summarize_loop a dl es
           (opened + (if element_in_window a e \<and> is_open e then 1 else 0),
            closed + (if element_in_window a e \<and> \<not> is_open e then 1 else 0),
            stale + (if element_in_window a e \<and> is_open e \<and> is_old dl e then 1 else 0)) = Inr r"
proof -
  from assms obtain tstr where t: "subscript e ''created_at'' = Inr tstr"
    by (cases "subscript e ''created_at''") simp_all
  from assms t obtain ca where ca: "parse_time tstr ''api'' = Inr ca"
    by (cases "parse_time tstr ''api''") simp_all
  have et: "element_time e = ca"
    by (simp add: element_time_def t ca)
  from assms t ca obtain w where w: "filter_by_date a ca = Inr w"
    by (cases "filter_by_date a ca") simp_all
  have ww: "w = element_in_window a e"
    using w by (cases ca)
      (auto simp: element_in_window_def et filter_by_date_Some filter_by_date_None split: if_splits)
  show ?thesis
  proof (cases w)
    case False
    with assms t ca w ww show ?thesis by simp
  next
    case True
    with assms t ca w obtain st where st: "subscript e ''state'' = Inr st"
      by (cases "subscript e ''state''") simp_all
    show ?thesis
    proof (cases "st = JStr ''open''")
      case no: False
      then have "\<not> is_open e" by (simp add: is_open_def st)
      with assms t ca w True st no ww show ?thesis by simp
    next
      case op: True
      then have o: "is_open e" by (simp add: is_open_def st)
      from assms t ca w True st op obtain old where old: "py_lt ca dl = Inr old"
        by (cases "py_lt ca dl") simp_all
      then have "old = is_old dl e"
        by (cases ca) (auto simp: py_lt_def is_old_def et)
      with assms t ca w True st op old o ww show ?thesis by (cases "is_old dl e") simp_all
    qed
  qed
qed

lemma summarize_loop_counts:
  "summarize_loop a dl es (opened, closed, stale) = Inr (opened', closed', stale') \<Longrightarrow>
     opened' = opened + length (filter (\<lambda>e. element_in_window a e \<and> is_open e) es) \<and>
     closed' = closed + length (filter (\<lambda>e. element_in_window a e \<and> \<not> is_open e) es) \<and>
     stale' = stale + length (filter (\<lambda>e. element_in_window a e \<and> is_open e \<and> is_old dl e) es)"
proof (induction es arbitrary: opened closed stale)
  case Nil
  then show ?case by simp
next
  case (Cons e es)
  from Cons.IH[OF summarize_loop_step[OF Cons.prems]] show ?case
    by auto
qed


lemmas ev_defs = strptime_def format_string_def directive_def literal_def to_lower_def to_upper_def
  digit_chars_def group_int_def py_int_def days_in_month_def is_leap_def month_lengths_def

lemmas summ_defs = summarize_def sub_days_def ymd2ord_def ord2ymd_def days_before_year_def
  days_before_month_def record_of_def parse_time_def filter_by_date_def py_lt_def py_gt_def
  datetime_lt_def dt_fields_def Let_def

subsection \<open>Well-formed records\<close>

lemma well_formed_parts:
  assumes "well_formed e"
  obtains s d st where "subscript e ''created_at'' = Inr (JStr s)" "s \<noteq> []"
    "strptime s (format_string ''api'') = Some d" "subscript e ''state'' = Inr st"
proof -
  from assms obtain v st where v: "subscript e ''created_at'' = Inr v"
    and st: "subscript e ''state'' = Inr st"
    unfolding well_formed_def
    by (cases "subscript e ''created_at''"; cases "subscript e ''state''") simp_all
  from assms v obtain s where s: "v = JStr s" "s \<noteq> []" "strptime s (format_string ''api'') \<noteq> None"
    unfolding well_formed_def by (cases v) simp_all
  then obtain d where "strptime s (format_string ''api'') = Some d"
    by (cases "strptime s (format_string ''api'')") simp_all
  with v s st that show thesis by simp
qed

lemma well_formed_step:
  assumes "well_formed e"
  shows "\<exists>cnt'. summarize_loop a dl (e # es) (opened, closed, stale) = summarize_loop a dl es cnt'"
proof -
  from assms obtain s d st where p: "subscript e ''created_at'' = Inr (JStr s)" "s \<noteq> []"
    "strptime s (format_string ''api'') = Some d" "subscript e ''state'' = Inr st"
    by (rule well_formed_parts)
  have pt: "parse_time (JStr s) ''api'' = Inr (Some d)"
    using p(2,3) by (simp add: parse_time_def)
  show ?thesis
    by (cases "in_window a d"; cases "st = JStr ''open''"; cases "datetime_lt d dl")
       (auto simp add: p(1,4) pt filter_by_date_Some py_lt_def)
qed

lemma well_formed_total:
  "\<forall>e\<in>set es. well_formed e \<Longrightarrow> \<exists>r. summarize_loop a dl es cnt = Inr r"
proof (induction es arbitrary: cnt)
  case Nil
  then show ?case by (cases cnt) simp
next
  case (Cons e es)
  obtain opened closed stale where c: "cnt = (opened, closed, stale)"
    by (cases cnt)
  from Cons.prems have "well_formed e" by simp
  from well_formed_step[OF this, of a dl es opened closed stale] obtain cnt'
    where "summarize_loop a dl (e # es) cnt = summarize_loop a dl es cnt'"
    unfolding c by (elim exE)
  moreover from Cons.prems have "\<forall>e\<in>set es. well_formed e" by simp
  from Cons.IH[OF this, of cnt'] obtain r where "summarize_loop a dl es cnt' = Inr r"
    by (elim exE)
  ultimately have "summarize_loop a dl (e # es) cnt = Inr r" by simp
  then show ?case by (intro exI)
qed

lemma filter_conj_le: "length (filter (\<lambda>x. P x \<and> Q x) xs) \<le> length (filter P xs)"
  by (induction xs) auto

lemma filter_split_length:
  "length (filter (\<lambda>x. P x \<and> Q x) xs) + length (filter (\<lambda>x. P x \<and> \<not> Q x) xs) =
   length (filter P xs)"
  by (induction xs) auto

lemma summarize_Inr:
  assumes "summarize a now es sd = Inr (opened, closed, stale)"
  obtains dl where "sub_days now sd = Inr dl"
    and "summarize_loop a dl es (0, 0, 0) = Inr (opened, closed, stale)"
  using assms unfolding summarize_def by (cases "sub_days now sd") simp_all


text \<open>
  C1. Whatever the records and the window, a summary that \<open>summarize\<close> returns counts
  each record of the window once, as opened when its state is "open" and as closed
  otherwise, and counts no record outside the window: opened plus closed is the
  number of records in the window. The test the code makes on a timestamp is the
  window of the specification, bounds included. On well-formed records, with a
  deadline in the range of dates, a summary is returned.
\<close>

theorem summarize_window:
  "(\<forall>opened closed stale.
      summarize a now elements stale_days = Inr (opened, closed, stale) \<longrightarrow>
        opened = length (filter (\<lambda>e. element_in_window a e \<and> is_open e) elements) \<and>
        closed = length (filter (\<lambda>e. element_in_window a e \<and> \<not> is_open e) elements) \<and>
        opened + closed = length (filter (element_in_window a) elements)) \<and>
   (\<forall>ts. filter_by_date a (Some ts) = Inr (in_window a ts)) \<and>
   ((\<forall>e\<in>set elements. well_formed e) \<and> (\<exists>deadline. sub_days now stale_days = Inr deadline) \<longrightarrow>
      (\<exists>opened closed stale. summarize a now elements stale_days = Inr (opened, closed, stale)))"
proof (intro conjI allI impI)
  fix opened closed stale
  assume run: "summarize a now elements stale_days = Inr (opened, closed, stale)"
  from run obtain dl where "summarize_loop a dl elements (0, 0, 0) = Inr (opened, closed, stale)"
    by (rule summarize_Inr)
  from summarize_loop_counts[OF this]
  have o: "opened = length (filter (\<lambda>e. element_in_window a e \<and> is_open e) elements)"
    and c: "closed = length (filter (\<lambda>e. element_in_window a e \<and> \<not> is_open e) elements)"
    by simp_all
  show "opened = length (filter (\<lambda>e. element_in_window a e \<and> is_open e) elements)"
    by (rule o)
  show "closed = length (filter (\<lambda>e. element_in_window a e \<and> \<not> is_open e) elements)"
    by (rule c)
  show "opened + closed = length (filter (element_in_window a) elements)"
    unfolding o c by (rule filter_split_length)
next
  fix ts
  show "filter_by_date a (Some ts) = Inr (in_window a ts)"
    by (rule filter_by_date_Some)
next
  assume h: "(\<forall>e\<in>set elements. well_formed e) \<and> (\<exists>deadline. sub_days now stale_days = Inr deadline)"
  then obtain dl where dl: "sub_days now stale_days = Inr dl"
    by (elim conjE exE)
  from h have "\<forall>e\<in>set elements. well_formed e" by (elim conjE)
  from well_formed_total[OF this, of a dl "(0, 0, 0)"] obtain r
    where "summarize_loop a dl elements (0, 0, 0) = Inr r"
    by (elim exE)
  then have "summarize a now elements stale_days = Inr (fst r, fst (snd r), snd (snd r))"
    by (simp add: summarize_def dl)
  then show "\<exists>opened closed stale. summarize a now elements stale_days = Inr (opened, closed, stale)"
    by (intro exI)
qed

theorem summarize_window_witness:
  "summarize
     \<lparr>date_from = Some \<lparr>year = 2023, month = 1, day = 1, hour = 0, minute = 0, second = 0, microsecond = 0\<rparr>,
      date_to = Some \<lparr>year = 2023, month = 1, day = 31, hour = 0, minute = 0, second = 0, microsecond = 0\<rparr>,
      repo_client = \<lparr>username = ''octocat'', project = ''Hello-World'', branch = ''master''\<rparr>\<rparr>
     \<lparr>year = 2023, month = 3, day = 1, hour = 12, minute = 0, second = 0, microsecond = 500\<rparr>
     [record_of ''2023-01-15T10:00:00Z'' ''open'',
      record_of ''2022-12-31T23:59:59Z'' ''closed'',
      record_of ''2023-01-31T00:00:00Z'' ''closed'',
      record_of ''2023-01-31T00:00:01Z'' ''open'',
      record_of ''2023-01-30T13:00:00Z'' ''open'']
     30 = Inr (2, 1, 1) \<and>
   (2::nat) + 1 = length (filter (element_in_window
     \<lparr>date_from = Some \<lparr>year = 2023, month = 1, day = 1, hour = 0, minute = 0, second = 0, microsecond = 0\<rparr>,
      date_to = Some \<lparr>year = 2023, month = 1, day = 31, hour = 0, minute = 0, second = 0, microsecond = 0\<rparr>,
      repo_client = \<lparr>username = ''octocat'', project = ''Hello-World'', branch = ''master''\<rparr>\<rparr>)
     [record_of ''2023-01-15T10:00:00Z'' ''open'',
      record_of ''2022-12-31T23:59:59Z'' ''closed'',
      record_of ''2023-01-31T00:00:00Z'' ''closed'',
      record_of ''2023-01-31T00:00:01Z'' ''open'',
      record_of ''2023-01-30T13:00:00Z'' ''open''])"
proof -
  let ?a = "\<lparr>date_from = Some \<lparr>year = 2023, month = 1, day = 1, hour = 0, minute = 0, second = 0, microsecond = 0\<rparr>,
      date_to = Some \<lparr>year = 2023, month = 1, day = 31, hour = 0, minute = 0, second = 0, microsecond = 0\<rparr>,
      repo_client = \<lparr>username = ''octocat'', project = ''Hello-World'', branch = ''master''\<rparr>\<rparr>"
  let ?now = "\<lparr>year = 2023, month = 3, day = 1, hour = 12, minute = 0, second = 0, microsecond = 500\<rparr>"
  let ?es = "[record_of ''2023-01-15T10:00:00Z'' ''open'',
      record_of ''2022-12-31T23:59:59Z'' ''closed'',
      record_of ''2023-01-31T00:00:00Z'' ''closed'',
      record_of ''2023-01-31T00:00:01Z'' ''open'',
      record_of ''2023-01-30T13:00:00Z'' ''open'']"
  have run: "summarize ?a ?now ?es 30 = Inr (2, 1, 1)"
    by (simp add: ev_defs summ_defs)
  from summarize_window[where a = ?a and now = ?now and elements = ?es and stale_days = 30,
      THEN conjunct1, THEN spec, THEN spec, THEN spec, THEN mp, OF run]
  have "(2::nat) + 1 = length (filter (element_in_window ?a) ?es)"
    by (elim conjE)
  with run show ?thesis by (intro conjI)
qed

section \<open>Stale counters\<close>


text \<open>
  C2. In every summary that \<open>summarize\<close> returns, stale is at most opened: the stale
  records are the records of the window with state "open" whose \<open>created_at\<close> is before
  the deadline, and the opened ones are the records of the window with state "open".
  The deadline is \<open>now\<close> minus the given days, computed before the loop: when it cannot
  be computed nothing is counted. A record of the window with another state adds one
  to closed and nothing else, whatever its \<open>created_at\<close>.
\<close>

theorem summarize_stale:
  "(\<forall>opened closed stale deadline.
      summarize a now elements stale_days = Inr (opened, closed, stale) \<and>
      sub_days now stale_days = Inr deadline \<longrightarrow>
        stale \<le> opened \<and>
        stale = length (filter (\<lambda>e. element_in_window a e \<and> is_open e \<and> is_old deadline e) elements) \<and>
        opened = length (filter (\<lambda>e. element_in_window a e \<and> is_open e) elements)) \<and>
   (\<forall>opened closed stale.
      summarize a now elements stale_days = Inr (opened, closed, stale) \<longrightarrow>
        stale \<le> opened \<and> (\<exists>deadline. sub_days now stale_days = Inr deadline)) \<and>
   (\<forall>e. sub_days now stale_days = Inl e \<longrightarrow> summarize a now elements stale_days = Inl e) \<and>
   (\<forall>element rest time_string created_at state opened closed stale deadline.
      subscript element ''created_at'' = Inr time_string \<and>
      parse_time time_string ''api'' = Inr created_at \<and>
      filter_by_date a created_at = Inr True \<and>
      subscript element ''state'' = Inr state \<and> state \<noteq> JStr ''open'' \<longrightarrow>
        summarize_loop a deadline (element # rest) (opened, closed, stale) =
        summarize_loop a deadline rest (opened, closed + 1, stale))"
proof (intro conjI allI impI)
  fix opened closed stale deadline
  assume h: "summarize a now elements stale_days = Inr (opened, closed, stale) \<and>
      sub_days now stale_days = Inr deadline"
  then have "summarize_loop a deadline elements (0, 0, 0) = Inr (opened, closed, stale)"
    by (elim conjE) (simp add: summarize_def)
  from summarize_loop_counts[OF this]
  have o: "opened = length (filter (\<lambda>e. element_in_window a e \<and> is_open e) elements)"
    and s: "stale = length (filter (\<lambda>e. element_in_window a e \<and> is_open e \<and> is_old deadline e) elements)"
    by simp_all
  show "stale = length (filter (\<lambda>e. element_in_window a e \<and> is_open e \<and> is_old deadline e) elements)"
    by (rule s)
  show "opened = length (filter (\<lambda>e. element_in_window a e \<and> is_open e) elements)"
    by (rule o)
  have "length (filter (\<lambda>e. (element_in_window a e \<and> is_open e) \<and> is_old deadline e) elements)
      \<le> length (filter (\<lambda>e. element_in_window a e \<and> is_open e) elements)"
    by (rule filter_conj_le)
  then show "stale \<le> opened"
    unfolding o s by (simp add: conj_assoc)
next
  fix opened closed stale
  assume run: "summarize a now elements stale_days = Inr (opened, closed, stale)"
  from run obtain dl where dl: "sub_days now stale_days = Inr dl"
    and l: "summarize_loop a dl elements (0, 0, 0) = Inr (opened, closed, stale)"
    by (rule summarize_Inr)
  from summarize_loop_counts[OF l]
  have o: "opened = length (filter (\<lambda>e. element_in_window a e \<and> is_open e) elements)"
    and s: "stale = length (filter (\<lambda>e. element_in_window a e \<and> is_open e \<and> is_old dl e) elements)"
    by simp_all
  have "length (filter (\<lambda>e. (element_in_window a e \<and> is_open e) \<and> is_old dl e) elements)
      \<le> length (filter (\<lambda>e. element_in_window a e \<and> is_open e) elements)"
    by (rule filter_conj_le)
  then show "stale \<le> opened"
    unfolding o s by (simp add: conj_assoc)
  from dl show "\<exists>deadline. sub_days now stale_days = Inr deadline"
    by (intro exI)
next
  fix e
  assume "sub_days now stale_days = Inl e"
  then show "summarize a now elements stale_days = Inl e"
    by (simp add: summarize_def)
next
  fix element rest time_string created_at state opened closed stale deadline
  assume h: "subscript element ''created_at'' = Inr time_string \<and>
      parse_time time_string ''api'' = Inr created_at \<and>
      filter_by_date a created_at = Inr True \<and>
      subscript element ''state'' = Inr state \<and> state \<noteq> JStr ''open''"
  then show "summarize_loop a deadline (element # rest) (opened, closed, stale) =
        summarize_loop a deadline rest (opened, closed + 1, stale)"
    by (elim conjE) simp
qed


text \<open>Two open records on either side of the deadline and a closed one without a date.\<close>

theorem summarize_stale_witness:
  "summarize
     \<lparr>date_from = None, date_to = None,
      repo_client = \<lparr>username = ''octocat'', project = ''Hello-World'', branch = ''master''\<rparr>\<rparr>
     \<lparr>year = 2023, month = 3, day = 1, hour = 12, minute = 0, second = 0, microsecond = 500\<rparr>
     [record_of ''2023-01-15T10:00:00Z'' ''open'',
      JObj [(''created_at'', JNull), (''state'', JStr ''closed'')],
      record_of ''2023-02-25T00:00:00Z'' ''open'']
     14 = Inr (2, 1, 1) \<and>
   sub_days \<lparr>year = 2023, month = 3, day = 1, hour = 12, minute = 0, second = 0, microsecond = 500\<rparr> 14 =
     Inr \<lparr>year = 2023, month = 2, day = 15, hour = 12, minute = 0, second = 0, microsecond = 500\<rparr> \<and>
   (1::nat) \<le> 2 \<and>
   1 = length (filter (\<lambda>e. element_in_window
         \<lparr>date_from = None, date_to = None,
          repo_client = \<lparr>username = ''octocat'', project = ''Hello-World'', branch = ''master''\<rparr>\<rparr> e \<and>
         is_open e \<and>
         is_old \<lparr>year = 2023, month = 2, day = 15, hour = 12, minute = 0, second = 0, microsecond = 500\<rparr> e)
     [record_of ''2023-01-15T10:00:00Z'' ''open'',
      JObj [(''created_at'', JNull), (''state'', JStr ''closed'')],
      record_of ''2023-02-25T00:00:00Z'' ''open''])"
proof -
  let ?a = "\<lparr>date_from = None, date_to = None,
      repo_client = \<lparr>username = ''octocat'', project = ''Hello-World'', branch = ''master''\<rparr>\<rparr>"
  let ?now = "\<lparr>year = 2023, month = 3, day = 1, hour = 12, minute = 0, second = 0, microsecond = 500\<rparr>"
  let ?dl = "\<lparr>year = 2023, month = 2, day = 15, hour = 12, minute = 0, second = 0, microsecond = 500\<rparr>"
  let ?es = "[record_of ''2023-01-15T10:00:00Z'' ''open'',
      JObj [(''created_at'', JNull), (''state'', JStr ''closed'')],
      record_of ''2023-02-25T00:00:00Z'' ''open'']"
  have dl: "sub_days ?now 14 = Inr ?dl"
    by (simp add: summ_defs month_lengths_def is_leap_def)
  have run: "summarize ?a ?now ?es 14 = Inr (2, 1, 1)"
    by (simp add: ev_defs summ_defs)
  have hyp: "summarize ?a ?now ?es 14 = Inr (2, 1, 1) \<and> sub_days ?now 14 = Inr ?dl"
    using run dl by (intro conjI)
  from summarize_stale[where a = ?a and now = ?now and elements = ?es and stale_days = 14,
      THEN conjunct1, THEN spec, THEN spec, THEN spec, THEN spec, THEN mp, OF hyp]
  have "(1::nat) \<le> 2 \<and>
        1 = length (filter (\<lambda>e. element_in_window ?a e \<and> is_open e \<and> is_old ?dl e) ?es)"
    by (elim conjE) (intro conjI)
  with run dl show ?thesis by (intro conjI) (elim conjE, assumption)+
qed







lemma subscript_error: "subscript v k = Inl e \<Longrightarrow> e = KeyError k \<or> e = TypeError"
  by (cases v) (auto split: option.splits)












section \<open>Malformed timestamps\<close>





section \<open>Date parsing\<close>

text \<open>Digits, the items of the two formats, and what \<open>strptime\<close> makes of the strings that \<open>isoformat\<close> writes.\<close>


lemma char_of_digits:
  "char_of (48::nat) = CHR ''0''" "char_of (49::nat) = CHR ''1''" "char_of (50::nat) = CHR ''2''"
  "char_of (51::nat) = CHR ''3''" "char_of (52::nat) = CHR ''4''" "char_of (53::nat) = CHR ''5''"
  "char_of (54::nat) = CHR ''6''" "char_of (55::nat) = CHR ''7''" "char_of (56::nat) = CHR ''8''"
  "char_of (57::nat) = CHR ''9''"
  by code_simp+

lemma digit_char_eq:
  "digit_char n =
     (if n mod 10 = 0 then CHR ''0'' else if n mod 10 = 1 then CHR ''1''
      else if n mod 10 = 2 then CHR ''2'' else if n mod 10 = 3 then CHR ''3''
      else if n mod 10 = 4 then CHR ''4'' else if n mod 10 = 5 then CHR ''5''
      else if n mod 10 = 6 then CHR ''6'' else if n mod 10 = 7 then CHR ''7''
      else if n mod 10 = 8 then CHR ''8'' else CHR ''9'')"
proof -
  have "n mod 10 < 10" by simp
  then consider "n mod 10 = 0" | "n mod 10 = 1" | "n mod 10 = 2" | "n mod 10 = 3" | "n mod 10 = 4"
    | "n mod 10 = 5" | "n mod 10 = 6" | "n mod 10 = 7" | "n mod 10 = 8" | "n mod 10 = 9"
    by atomize_elim presburger
  then show ?thesis
    by cases (simp_all add: digit_char_def char_of_digits)
qed

lemma digit_char_is:
  "digit_char n = CHR ''0'' \<longleftrightarrow> n mod 10 = 0"
  "digit_char n = CHR ''1'' \<longleftrightarrow> n mod 10 = 1"
  "digit_char n = CHR ''2'' \<longleftrightarrow> n mod 10 = 2"
  "digit_char n = CHR ''3'' \<longleftrightarrow> n mod 10 = 3"
  "digit_char n = CHR ''4'' \<longleftrightarrow> n mod 10 = 4"
  "digit_char n = CHR ''5'' \<longleftrightarrow> n mod 10 = 5"
  "digit_char n = CHR ''6'' \<longleftrightarrow> n mod 10 = 6"
  "digit_char n = CHR ''7'' \<longleftrightarrow> n mod 10 = 7"
  "digit_char n = CHR ''8'' \<longleftrightarrow> n mod 10 = 8"
  "digit_char n = CHR ''9'' \<longleftrightarrow> n mod 10 = 9"
  "digit_char n \<noteq> CHR '' ''"
  using mod_less_divisor[of 10 n] by (simp_all add: digit_char_eq) presburger

lemma digit_char_value: "of_char (digit_char n) - (48::nat) = n mod 10"
proof -
  have "n mod 10 < 10" by simp
  then consider "n mod 10 = 0" | "n mod 10 = 1" | "n mod 10 = 2" | "n mod 10 = 3" | "n mod 10 = 4"
    | "n mod 10 = 5" | "n mod 10 = 6" | "n mod 10 = 7" | "n mod 10 = 8" | "n mod 10 = 9"
    by atomize_elim presburger
  then show ?thesis
    by cases (simp_all add: digit_char_eq)
qed

lemma digit_char_in_digits: "digit_char n \<in> set digit_chars"
  by (simp add: digit_chars_def digit_char_eq)

lemma py_int_pad2: "n \<le> 99 \<Longrightarrow> py_int (pad2 n) = n"
  by (simp add: py_int_def pad2_def digit_char_is digit_char_value)


lemma decimal4:
  "1000 * (n div 1000) + 100 * (n div 100 mod 10) + 10 * (n div 10 mod 10) + n mod 10 = (n::nat)"
proof -
  have a: "n = 10 * (n div 10) + n mod 10" by simp
  have b: "n div 10 = 10 * (n div 100) + n div 10 mod 10"
    using mult_div_mod_eq[of 10 "n div 10"] by (simp add: div_mult2_eq[symmetric])
  have c: "n div 100 = 10 * (n div 1000) + n div 100 mod 10"
    using mult_div_mod_eq[of 10 "n div 100"] by (simp add: div_mult2_eq[symmetric])
  from a b c show ?thesis by linarith
qed

lemma py_int_pad4: "n \<le> 9999 \<Longrightarrow> py_int (pad4 n) = n"
  by (simp add: py_int_def pad4_def digit_char_is digit_char_value decimal4)


lemma pad2_digits: "pad2 n = [digit_char (n div 10), digit_char (n mod 10)]"
  by (simp add: pad2_def digit_char_def)

lemma year_item:
  assumes "match_items its r = Some (g, r')"
  shows "match_items ((Some CHR ''Y'', directive CHR ''Y'') # its) (pad4 n @ r) =
         Some ((CHR ''Y'', pad4 n) # g, r')"
  using assms by (simp add: directive_def pad4_def digit_char_in_digits)

lemma month_digits:
  assumes "a < 10" "b < 10" "(a = 1 \<and> b \<le> 2) \<or> (a = 0 \<and> 1 \<le> b)"
    and "match_items its r = Some (g, r')"
  shows "match_items ((Some CHR ''m'', directive CHR ''m'') # its) (digit_char a # digit_char b # r) =
         Some ((CHR ''m'', [digit_char a, digit_char b]) # g, r')"
  using assms by (auto simp: directive_def digit_char_is)

lemma month_item:
  assumes "1 \<le> n" "n \<le> 12" "match_items its r = Some (g, r')"
  shows "match_items ((Some CHR ''m'', directive CHR ''m'') # its) (pad2 n @ r) =
         Some ((CHR ''m'', pad2 n) # g, r')"
proof -
  have "n div 10 < 10" "n mod 10 < 10"
    "(n div 10 = 1 \<and> n mod 10 \<le> 2) \<or> (n div 10 = 0 \<and> 1 \<le> n mod 10)"
    using assms(1,2) by presburger+
  from month_digits[OF this assms(3)] show ?thesis
    by (simp add: pad2_digits)
qed


lemma day_digits:
  assumes "a < 10" "b < 10" "(a = 3 \<and> b \<le> 1) \<or> a = 1 \<or> a = 2 \<or> (a = 0 \<and> 1 \<le> b)"
    and "match_items its r = Some (g, r')"
  shows "match_items ((Some CHR ''d'', directive CHR ''d'') # its) (digit_char a # digit_char b # r) =
         Some ((CHR ''d'', [digit_char a, digit_char b]) # g, r')"
  using assms by (auto simp: directive_def digit_char_is digit_char_in_digits)

lemma day_item:
  assumes "1 \<le> n" "n \<le> 31" "match_items its r = Some (g, r')"
  shows "match_items ((Some CHR ''d'', directive CHR ''d'') # its) (pad2 n @ r) =
         Some ((CHR ''d'', pad2 n) # g, r')"
proof -
  have "n div 10 < 10" "n mod 10 < 10"
    "(n div 10 = 3 \<and> n mod 10 \<le> 1) \<or> n div 10 = 1 \<or> n div 10 = 2 \<or>
     (n div 10 = 0 \<and> 1 \<le> n mod 10)"
    using assms(1,2) by presburger+
  from day_digits[OF this assms(3)] show ?thesis
    by (simp add: pad2_digits)
qed

lemma hour_digits:
  assumes "a < 10" "b < 10" "(a = 2 \<and> b \<le> 3) \<or> a = 0 \<or> a = 1"
    and "match_items its r = Some (g, r')"
  shows "match_items ((Some CHR ''H'', directive CHR ''H'') # its) (digit_char a # digit_char b # r) =
         Some ((CHR ''H'', [digit_char a, digit_char b]) # g, r')"
  using assms by (auto simp: directive_def digit_char_is digit_char_in_digits)

lemma hour_item:
  assumes "n \<le> 23" "match_items its r = Some (g, r')"
  shows "match_items ((Some CHR ''H'', directive CHR ''H'') # its) (pad2 n @ r) =
         Some ((CHR ''H'', pad2 n) # g, r')"
proof -
  have "n div 10 < 10" "n mod 10 < 10"
    "(n div 10 = 2 \<and> n mod 10 \<le> 3) \<or> n div 10 = 0 \<or> n div 10 = 1"
    using assms(1) by presburger+
  from hour_digits[OF this assms(2)] show ?thesis
    by (simp add: pad2_digits)
qed

lemma minute_digits:
  assumes "a \<le> 5" "b < 10" "match_items its r = Some (g, r')"
  shows "match_items ((Some CHR ''M'', directive CHR ''M'') # its) (digit_char a # digit_char b # r) =
         Some ((CHR ''M'', [digit_char a, digit_char b]) # g, r')"
  using assms by (auto simp: directive_def digit_char_is digit_char_in_digits)

lemma minute_item:
  assumes "n \<le> 59" "match_items its r = Some (g, r')"
  shows "match_items ((Some CHR ''M'', directive CHR ''M'') # its) (pad2 n @ r) =
         Some ((CHR ''M'', pad2 n) # g, r')"
proof -
  have "n div 10 \<le> 5" "n mod 10 < 10"
    using assms(1) by presburger+
  from minute_digits[OF this assms(2)] show ?thesis
    by (simp add: pad2_digits)
qed

lemma second_digits:
  assumes "a \<le> 5" "b < 10" "match_items its r = Some (g, r')"
  shows "match_items ((Some CHR ''S'', directive CHR ''S'') # its) (digit_char a # digit_char b # r) =
         Some ((CHR ''S'', [digit_char a, digit_char b]) # g, r')"
  using assms by (auto simp: directive_def digit_char_is digit_char_in_digits)

lemma second_item:
  assumes "n \<le> 59" "match_items its r = Some (g, r')"
  shows "match_items ((Some CHR ''S'', directive CHR ''S'') # its) (pad2 n @ r) =
         Some ((CHR ''S'', pad2 n) # g, r')"
proof -
  have "n div 10 \<le> 5" "n mod 10 < 10"
    using assms(1) by presburger+
  from second_digits[OF this assms(2)] show ?thesis
    by (simp add: pad2_digits)
qed

lemma literal_item:
  assumes "match_items its r = Some (g, r')"
  shows "match_items (literal c # its) (c # r) = Some (g, r')"
  using assms by (simp add: literal_def to_lower_def to_upper_def Let_def)


lemma pattern_input:
  "pattern ''%Y-%m-%d'' =
     [(Some CHR ''Y'', directive CHR ''Y''), literal CHR ''-'',
      (Some CHR ''m'', directive CHR ''m''), literal CHR ''-'',
      (Some CHR ''d'', directive CHR ''d'')]"
  by simp

lemma pattern_api:
  "pattern ''%Y-%m-%dT%H:%M:%SZ'' =
     [(Some CHR ''Y'', directive CHR ''Y''), literal CHR ''-'',
      (Some CHR ''m'', directive CHR ''m''), literal CHR ''-'',
      (Some CHR ''d'', directive CHR ''d''), literal CHR ''T'',
      (Some CHR ''H'', directive CHR ''H''), literal CHR '':'',
      (Some CHR ''M'', directive CHR ''M''), literal CHR '':'',
      (Some CHR ''S'', directive CHR ''S''), literal CHR ''Z'']"
  by simp

lemma date_items:
  assumes "1 \<le> m" "m \<le> 12" "1 \<le> dd" "dd \<le> 31" "match_items its r = Some (g, r')"
  shows "match_items
           ((Some CHR ''Y'', directive CHR ''Y'') # literal CHR ''-'' #
            (Some CHR ''m'', directive CHR ''m'') # literal CHR ''-'' #
            (Some CHR ''d'', directive CHR ''d'') # its)
           (pad4 y @ CHR ''-'' # pad2 m @ CHR ''-'' # pad2 dd @ r) =
         Some ((CHR ''Y'', pad4 y) # (CHR ''m'', pad2 m) # (CHR ''d'', pad2 dd) # g, r')"
  by (intro year_item literal_item month_item day_item assms)

lemma time_items:
  assumes "hh \<le> 23" "mm \<le> 59" "ss \<le> 59" "match_items its r = Some (g, r')"
  shows "match_items
           ((Some CHR ''H'', directive CHR ''H'') # literal CHR '':'' #
            (Some CHR ''M'', directive CHR ''M'') # literal CHR '':'' #
            (Some CHR ''S'', directive CHR ''S'') # its)
           (pad2 hh @ CHR '':'' # pad2 mm @ CHR '':'' # pad2 ss @ r) =
         Some ((CHR ''H'', pad2 hh) # (CHR ''M'', pad2 mm) # (CHR ''S'', pad2 ss) # g, r')"
  by (intro hour_item literal_item minute_item second_item assms)

lemma days_in_month_le: "1 \<le> m \<Longrightarrow> m \<le> 12 \<Longrightarrow> days_in_month y m \<le> 31"
proof -
  assume "1 \<le> m" "m \<le> 12"
  then consider "m = 1" | "m = 2" | "m = 3" | "m = 4" | "m = 5" | "m = 6" | "m = 7" | "m = 8"
    | "m = 9" | "m = 10" | "m = 11" | "m = 12"
    by atomize_elim presburger
  then show ?thesis
    by cases (simp_all add: days_in_month_def month_lengths_def)
qed

lemma strptime_input:
  assumes "valid_datetime d" "hour d = 0" "minute d = 0" "second d = 0" "microsecond d = 0"
  shows "strptime (iso_date d) ''%Y-%m-%d'' = Some d"
proof -
  from assms(1) have v: "1 \<le> year d" "year d \<le> 9999" "1 \<le> month d" "month d \<le> 12"
    "1 \<le> day d" "day d \<le> days_in_month (year d) (month d)"
    by (simp_all add: valid_datetime_def)
  from v(6) days_in_month_le[OF v(3,4), of "year d"] have d31: "day d \<le> 31"
    by simp
  have base: "match_items [] [] = Some ([], [])"
    by simp
  have m: "match_items (pattern ''%Y-%m-%d'') (iso_date d) =
      Some ([(CHR ''Y'', pad4 (year d)), (CHR ''m'', pad2 (month d)), (CHR ''d'', pad2 (day d))], [])"
    using date_items[OF v(3,4,5) d31 base, of "year d"]
    by (simp only: pattern_input iso_date_def append.simps append_Nil2)
  have i: "py_int (pad4 (year d)) = year d" "py_int (pad2 (month d)) = month d"
    "py_int (pad2 (day d)) = day d"
    using v(2,4) d31 by (simp_all add: py_int_pad4 py_int_pad2)
  have "strptime (iso_date d) ''%Y-%m-%d'' =
      Some \<lparr>year = year d, month = month d, day = day d, hour = 0, minute = 0, second = 0,
            microsecond = 0\<rparr>"
    unfolding strptime_def m using v by (simp add: group_int_def i)
  also have "\<dots> = Some d"
    using assms(2-5) by (cases d) simp
  finally show ?thesis .
qed

lemma strptime_api:
  assumes "valid_datetime d" "microsecond d = 0"
  shows "strptime (isoformat d @ ''Z'') ''%Y-%m-%dT%H:%M:%SZ'' = Some d"
proof -
  from assms(1) have v: "1 \<le> year d" "year d \<le> 9999" "1 \<le> month d" "month d \<le> 12"
    "1 \<le> day d" "day d \<le> days_in_month (year d) (month d)"
    "hour d \<le> 23" "minute d \<le> 59" "second d \<le> 59"
    by (simp_all add: valid_datetime_def)
  from v(6) days_in_month_le[OF v(3,4), of "year d"] have d31: "day d \<le> 31"
    by simp
  have base: "match_items [literal CHR ''Z''] ''Z'' = Some ([], [])"
    using literal_item[of "[]" "[]" "[]" "[]" "CHR ''Z''"] by simp
  note t = time_items[OF v(7,8,9) base]
  note tt = literal_item[OF t, of "CHR ''T''"]
  have s: "isoformat d @ ''Z'' =
      pad4 (year d) @ CHR ''-'' # pad2 (month d) @ CHR ''-'' # pad2 (day d) @ CHR ''T'' #
      pad2 (hour d) @ CHR '':'' # pad2 (minute d) @ CHR '':'' # pad2 (second d) @ ''Z''"
    using assms(2) by (simp add: isoformat_def iso_date_def)
  have m: "match_items (pattern ''%Y-%m-%dT%H:%M:%SZ'') (isoformat d @ ''Z'') =
      Some ([(CHR ''Y'', pad4 (year d)), (CHR ''m'', pad2 (month d)), (CHR ''d'', pad2 (day d)),
             (CHR ''H'', pad2 (hour d)), (CHR ''M'', pad2 (minute d)), (CHR ''S'', pad2 (second d))], [])"
    unfolding s pattern_api by (rule date_items[OF v(3,4,5) d31 tt])
  have i: "py_int (pad4 (year d)) = year d" "py_int (pad2 (month d)) = month d"
    "py_int (pad2 (day d)) = day d" "py_int (pad2 (hour d)) = hour d"
    "py_int (pad2 (minute d)) = minute d" "py_int (pad2 (second d)) = second d"
    using v(2,4,7,8,9) d31 by (simp_all add: py_int_pad4 py_int_pad2)
  have "strptime (isoformat d @ ''Z'') ''%Y-%m-%dT%H:%M:%SZ'' =
      Some \<lparr>year = year d, month = month d, day = day d, hour = hour d, minute = minute d,
            second = second d, microsecond = 0\<rparr>"
    unfolding strptime_def m using v by (simp add: group_int_def i)
  also have "\<dots> = Some d"
    using assms(2) by (cases d) simp
  finally show ?thesis .
qed







lemma parse_time_string:
  "s \<noteq> [] \<Longrightarrow>
   parse_time (JStr s) source =
     (case strptime s (format_string source) of
        None \<Rightarrow> Inl (AnalyzerError ''Incorrect date format'')
      | Some d \<Rightarrow> Inr (Some d))"
  by (simp add: parse_time_def)

lemma iso_date_nonempty: "iso_date d \<noteq> []"
  by (simp add: iso_date_def pad4_def)



lemma parse_time_input_roundtrip:
  assumes "valid_datetime d" "hour d = 0" "minute d = 0" "second d = 0" "microsecond d = 0"
  shows "parse_time (JStr (iso_date d)) ''input'' = Inr (Some d)"
  using strptime_input[OF assms]
  by (simp add: parse_time_string[OF iso_date_nonempty] format_string_def)

lemma parse_time_api_roundtrip:
  assumes "valid_datetime d" "microsecond d = 0"
  shows "parse_time (JStr (isoformat d @ ''Z'')) ''api'' = Inr (Some d)"
proof -
  have ne: "isoformat d @ ''Z'' \<noteq> []" by simp
  have f: "format_string ''api'' = ''%Y-%m-%dT%H:%M:%SZ''"
    by (simp add: format_string_def)
  show ?thesis
    unfolding parse_time_string[OF ne] f strptime_api[OF assms] by simp
qed





subsection \<open>What a match of the expression looks like\<close>
















































subsection \<open>Fields written with one digit\<close>









subsection \<open>Every way of writing a field is matched\<close>






















subsection \<open>The strings of the two shapes among those accepted\<close>







lemma shape_sep:
  assumes "spec_shape (p # ps) (c # r)" "p \<notin> set ''YMDHS''"
  shows "c = p \<and> spec_shape ps r"
  using assms by simp







subsection \<open>What the two formats accept\<close>

















section \<open>The ranking of the contributors\<close>


lemma count_commits_total:
  "\<forall>c\<in>set commits. commit_error c = None \<Longrightarrow>
   count_commits rating commits = Inr (foldl increment rating (counted_logins commits))"
proof (induction commits arbitrary: rating)
  case Nil
  then show ?case by (simp add: counted_logins_def)
next
  case (Cons c cs)
  from Cons.prems have c: "commit_error c = None" and cs: "\<forall>c\<in>set cs. commit_error c = None"
    by simp_all
  note ih = Cons.IH[OF cs]
  from c obtain author where a: "subscript c ''author'' = Inr author"
    unfolding commit_error_def by (cases "subscript c ''author''") simp_all
  show ?case
  proof (cases "truthy author")
    case False
    with a ih show ?thesis
      by (simp add: counted_logins_def author_login_def List.map_filter_simps)
  next
    case True
    with c a obtain login where l: "subscript author ''login'' = Inr login"
      unfolding commit_error_def by (cases "subscript author ''login''") simp_all
    with c a True have h: "hashable login"
      unfolding commit_error_def by (simp split: if_splits)
    from a True l h ih show ?thesis
      by (simp add: counted_logins_def author_login_def List.map_filter_simps)
  qed
qed

lemma count_commits_error:
  assumes "\<forall>c\<in>set pre. commit_error c = None" "commit_error x = Some e"
  shows "count_commits rating (pre @ x # post) = Inl e"
  using assms(1)
proof (induction pre arbitrary: rating)
  case Nil
  from assms(2) show ?case
    unfolding commit_error_def
    by (auto split: sum.splits if_splits)
next
  case (Cons c cs)
  from Cons.prems have c: "commit_error c = None" and cs: "\<forall>c\<in>set cs. commit_error c = None"
    by simp_all
  note ih = Cons.IH[OF cs]
  from c show ?case
    unfolding commit_error_def
    by (auto simp: ih split: sum.splits if_splits)
qed

lemma counted_has_author:
  "\<forall>c\<in>set commits. commit_error c = None \<Longrightarrow>
   length (counted_logins commits) = length (filter has_author commits)"
  using count_commits_foldl[OF count_commits_total, of commits "[]"] by simp

lemma commit_error_cases:
  "commit_error c = Some e \<Longrightarrow>
   e = KeyError ''author'' \<or> e = KeyError ''login'' \<or> e = TypeError"
  unfolding commit_error_def
  by (auto split: sum.splits if_splits dest: subscript_error)


text \<open>
  C5, as stated, fails twice. The guard of the loop is \<open>if not author\<close>: of two commits
  with a non-null author only one is counted, the one whose author is an empty object
  is skipped. And a commit without an author field is not skipped: \<open>commit["author"]\<close>
  raises a \<open>KeyError\<close>, and no ranking is returned.
\<close>

theorem get_contributors_counterexample:
  "get_contributors_rating [JObj [(''author'', JObj [])], commit_by (Some ''A'')] 0 =
     Inr [(JStr ''A'', 1)] \<and>
   author_non_null (JObj [(''author'', JObj [])]) \<and>
   author_non_null (commit_by (Some ''A'')) \<and>
   get_contributors_rating [JObj [], commit_by (Some ''A'')] 0 = Inl (KeyError ''author'')"
  by (simp add: get_contributors_rating_def sort_rating_def author_non_null_def commit_by_def
      increment_def)

text \<open>
  C5, amended. Take a commit list in which every commit has an author field and every
  author that passes the guard \<open>if not author\<close> (is neither null nor another empty
  value) has a login that can be a key. Then \<open>get_contributors\<close> returns a ranking: it
  counts one increment, under the author's login, for each commit whose author passes
  the guard, and skips every commit whose author is null or empty entirely (leaving
  such a commit out changes nothing). The dictionary lists the logins in the order of
  their first commit, each with the number of its commits; the ranking is that list
  sorted by descending count, pairs with equal counts in their first-encounter order,
  cut to the first \<open>limit\<close> pairs when the limit is nonzero. In every other commit list
  the first commit that lacks the author field, or whose author passes the guard and
  has no usable login, decides the outcome: its \<open>KeyError\<close> or \<open>TypeError\<close> is raised and
  no ranking is returned. A list of commits that are null or carry a user with a login
  is of the first kind; authors A, B, A, C, B, A give (A, 3), (B, 2), (C, 1), and a null
  author followed by A gives (A, 1). The ranking is computed from the commits fetched
  for the date window.
\<close>

theorem get_contributors_ranking:
  "((\<forall>x\<in>set commits. commit_error x = None) \<longrightarrow>
      (\<exists>rating.
         map fst rating = rev (remdups (rev (counted_logins commits))) \<and>
         (\<forall>p\<in>set rating. snd p = count_list (counted_logins commits) (fst p)) \<and>
         length (counted_logins commits) = length (filter has_author commits) \<and>
         sorted_wrt (\<lambda>x y. snd y \<le> snd x) (sort_rating rating) \<and>
         mset (sort_rating rating) = mset rating \<and>
         (\<forall>n. filter (\<lambda>x. snd x = n) (sort_rating rating) = filter (\<lambda>x. snd x = n) rating) \<and>
         get_contributors_rating commits limit =
           Inr (if limit \<noteq> 0 then take limit (sort_rating rating) else sort_rating rating))) \<and>
   (\<forall>pre x post e.
      commits = pre @ x # post \<and> (\<forall>y\<in>set pre. commit_error y = None) \<and> commit_error x = Some e \<longrightarrow>
      get_contributors_rating commits limit = Inl e \<and>
      (e = KeyError ''author'' \<or> e = KeyError ''login'' \<or> e = TypeError)) \<and>
   ((\<exists>ranking. get_contributors_rating commits limit = Inr ranking) \<longleftrightarrow>
      (\<forall>x\<in>set commits. commit_error x = None)) \<and>
   (\<forall>kvs. map_of kvs ''author'' = None \<longrightarrow> commit_error (JObj kvs) = Some (KeyError ''author'')) \<and>
   (\<forall>kvs author. map_of kvs ''author'' = Some author \<and> \<not> truthy author \<longrightarrow>
      commit_error (JObj kvs) = None \<and> \<not> has_author (JObj kvs)) \<and>
   (\<forall>x author pre post.
      commits = pre @ x # post \<and> subscript x ''author'' = Inr author \<and> \<not> truthy author \<longrightarrow>
      get_contributors_rating commits limit = get_contributors_rating (pre @ post) limit) \<and>
   (\<forall>authors. commits = map commit_by authors \<longrightarrow> (\<forall>x\<in>set commits. commit_error x = None)) \<and>
   (a \<noteq> b \<and> a \<noteq> c \<and> b \<noteq> c \<longrightarrow>
      get_contributors_rating
        (map commit_by [Some a, Some b, Some a, Some c, Some b, Some a]) 0 =
        Inr [(JStr a, 3), (JStr b, 2), (JStr c, 1)]) \<and>
   get_contributors_rating [commit_by None, commit_by (Some a)] 0 = Inr [(JStr a, 1)] \<and>
   (\<forall>srv an log.
      get_commits srv (repo_client an)
        (map_option (\<lambda>d. isoformat d @ ''Z'') (date_from an))
        (map_option (\<lambda>d. isoformat d @ ''Z'') (date_to an)) = Some (Inr commits, log) \<longrightarrow>
      get_contributors srv an limit = Some (get_contributors_rating commits limit, log))"
proof -
  let ?r = "foldl increment [] (counted_logins commits)"
  have A: "\<exists>rating.
         map fst rating = rev (remdups (rev (counted_logins commits))) \<and>
         (\<forall>p\<in>set rating. snd p = count_list (counted_logins commits) (fst p)) \<and>
         length (counted_logins commits) = length (filter has_author commits) \<and>
         sorted_wrt (\<lambda>x y. snd y \<le> snd x) (sort_rating rating) \<and>
         mset (sort_rating rating) = mset rating \<and>
         (\<forall>n. filter (\<lambda>x. snd x = n) (sort_rating rating) = filter (\<lambda>x. snd x = n) rating) \<and>
         get_contributors_rating commits limit =
           Inr (if limit \<noteq> 0 then take limit (sort_rating rating) else sort_rating rating)"
    if wf: "\<forall>x\<in>set commits. commit_error x = None"
  proof (intro exI[of _ ?r] conjI)
    show "map fst ?r = rev (remdups (rev (counted_logins commits)))"
      using tally_props[of "counted_logins commits"] by blast
    show "\<forall>p\<in>set ?r. snd p = count_list (counted_logins commits) (fst p)"
    proof
      fix p assume "p \<in> set ?r"
      then have "(fst p, snd p) \<in> set ?r" by simp
      from tally_entries[OF this] show "snd p = count_list (counted_logins commits) (fst p)"
        by simp
    qed
    show "length (counted_logins commits) = length (filter has_author commits)"
      by (rule counted_has_author[OF wf])
    show "sorted_wrt (\<lambda>x y. snd y \<le> snd x) (sort_rating ?r)"
      by (rule sort_rating_sorted)
    show "mset (sort_rating ?r) = mset ?r"
      by (rule sort_rating_mset)
    show "\<forall>n. filter (\<lambda>x. snd x = n) (sort_rating ?r) = filter (\<lambda>x. snd x = n) ?r"
      by (simp add: sort_rating_stable)
    show "get_contributors_rating commits limit =
        Inr (if limit \<noteq> 0 then take limit (sort_rating ?r) else sort_rating ?r)"
      by (simp add: get_contributors_rating_def count_commits_total[OF wf] Let_def)
  qed
  have F: "get_contributors_rating commits limit = Inl e \<and>
      (e = KeyError ''author'' \<or> e = KeyError ''login'' \<or> e = TypeError)"
    if "commits = pre @ x # post" "\<forall>y\<in>set pre. commit_error y = None" "commit_error x = Some e"
    for pre x post e
    using commit_error_cases[OF that(3)]
    by (simp add: get_contributors_rating_def that(1) count_commits_error[OF that(2,3)])
  have G: "(\<exists>ranking. get_contributors_rating commits limit = Inr ranking) \<longleftrightarrow>
      (\<forall>x\<in>set commits. commit_error x = None)"
  proof
    assume "\<forall>x\<in>set commits. commit_error x = None"
    from A[OF this] show "\<exists>ranking. get_contributors_rating commits limit = Inr ranking"
      by (elim exE conjE) (rule exI)
  next
    assume run: "\<exists>ranking. get_contributors_rating commits limit = Inr ranking"
    show "\<forall>x\<in>set commits. commit_error x = None"
    proof (rule ccontr)
      assume "\<not> (\<forall>x\<in>set commits. commit_error x = None)"
      then have "\<exists>x\<in>set commits. commit_error x \<noteq> None" by simp
      then obtain pre x post where s: "commits = pre @ x # post" "commit_error x \<noteq> None"
        "\<forall>y\<in>set pre. \<not> commit_error y \<noteq> None"
        by (auto simp: split_list_first_prop_iff)
      from s(2) obtain e where e: "commit_error x = Some e" by (cases "commit_error x") simp_all
      from s(3) have p: "\<forall>y\<in>set pre. commit_error y = None" by simp
      from F[OF s(1) p e] run show False by (elim exE conjE) simp
    qed
  qed
  have H: "commit_error (JObj kvs) = Some (KeyError ''author'')" if "map_of kvs ''author'' = None"
    for kvs
    using that by (simp add: commit_error_def)
  have I: "commit_error (JObj kvs) = None \<and> \<not> has_author (JObj kvs)"
    if "map_of kvs ''author'' = Some author" "\<not> truthy author" for kvs author
    using that by (simp add: commit_error_def has_author_def)
  have B: "get_contributors_rating commits limit = get_contributors_rating (pre @ post) limit"
    if "commits = pre @ x # post" "subscript x ''author'' = Inr author" "\<not> truthy author"
    for x author pre post
    unfolding get_contributors_rating_def that(1) count_commits_skip[OF that(2,3)] ..
  have C: "\<forall>x\<in>set commits. commit_error x = None"
    if "commits = map commit_by authors" for authors
  proof
    fix x assume "x \<in> set commits"
    with that obtain u where "x = commit_by u" by auto
    then show "commit_error x = None"
      by (cases u) (simp_all add: commit_by_def commit_error_def)
  qed
  have D: "get_contributors_rating
        (map commit_by [Some a, Some b, Some a, Some c, Some b, Some a]) 0 =
        Inr [(JStr a, 3), (JStr b, 2), (JStr c, 1)]"
    if "a \<noteq> b" "a \<noteq> c" "b \<noteq> c"
    using that
    by (simp add: get_contributors_rating_def sort_rating_def commit_by_def increment_def)
  have E: "get_contributors_rating [commit_by None, commit_by (Some a)] 0 = Inr [(JStr a, 1)]"
    by (simp add: get_contributors_rating_def sort_rating_def commit_by_def increment_def)
  have J: "get_contributors srv an limit = Some (get_contributors_rating commits limit, log)"
    if "get_commits srv (repo_client an)
        (map_option (\<lambda>d. isoformat d @ ''Z'') (date_from an))
        (map_option (\<lambda>d. isoformat d @ ''Z'') (date_to an)) = Some (Inr commits, log)"
    for srv an log
    using that by (simp add: get_contributors_def Let_def)
  show ?thesis
  proof (intro conjI allI impI)
    assume "\<forall>x\<in>set commits. commit_error x = None"
    then show "\<exists>rating.
         map fst rating = rev (remdups (rev (counted_logins commits))) \<and>
         (\<forall>p\<in>set rating. snd p = count_list (counted_logins commits) (fst p)) \<and>
         length (counted_logins commits) = length (filter has_author commits) \<and>
         sorted_wrt (\<lambda>x y. snd y \<le> snd x) (sort_rating rating) \<and>
         mset (sort_rating rating) = mset rating \<and>
         (\<forall>n. filter (\<lambda>x. snd x = n) (sort_rating rating) = filter (\<lambda>x. snd x = n) rating) \<and>
         get_contributors_rating commits limit =
           Inr (if limit \<noteq> 0 then take limit (sort_rating rating) else sort_rating rating)"
      by (rule A)
  next
    fix pre x post e
    assume h: "commits = pre @ x # post \<and> (\<forall>y\<in>set pre. commit_error y = None) \<and> commit_error x = Some e"
    from h have "get_contributors_rating commits limit = Inl e \<and>
      (e = KeyError ''author'' \<or> e = KeyError ''login'' \<or> e = TypeError)"
      by (elim conjE) (rule F)
    then show "get_contributors_rating commits limit = Inl e"
      and "e = KeyError ''author'' \<or> e = KeyError ''login'' \<or> e = TypeError"
      by (rule conjunct1, rule conjunct2)
  next
    show "(\<exists>ranking. get_contributors_rating commits limit = Inr ranking) \<longleftrightarrow>
      (\<forall>x\<in>set commits. commit_error x = None)"
      by (rule G)
  next
    fix kvs :: "(string \<times> json) list"
    assume "map_of kvs ''author'' = None"
    then show "commit_error (JObj kvs) = Some (KeyError ''author'')" by (rule H)
  next
    fix kvs :: "(string \<times> json) list" and author
    assume h: "map_of kvs ''author'' = Some author \<and> \<not> truthy author"
    then have "commit_error (JObj kvs) = None \<and> \<not> has_author (JObj kvs)"
      by (elim conjE) (rule I)
    then show "commit_error (JObj kvs) = None" and "\<not> has_author (JObj kvs)"
      by (rule conjunct1, rule conjunct2)
  next
    fix x author pre post
    assume "commits = pre @ x # post \<and> subscript x ''author'' = Inr author \<and> \<not> truthy author"
    then show "get_contributors_rating commits limit = get_contributors_rating (pre @ post) limit"
      by (elim conjE) (rule B)
  next
    fix authors
    assume "commits = map commit_by authors"
    then show "\<forall>x\<in>set commits. commit_error x = None" by (rule C)
  next
    assume "a \<noteq> b \<and> a \<noteq> c \<and> b \<noteq> c"
    then show "get_contributors_rating
        (map commit_by [Some a, Some b, Some a, Some c, Some b, Some a]) 0 =
        Inr [(JStr a, 3), (JStr b, 2), (JStr c, 1)]"
      by (elim conjE) (rule D)
  next
    show "get_contributors_rating [commit_by None, commit_by (Some a)] 0 = Inr [(JStr a, 1)]"
      by (rule E)
  next
    fix srv and an :: analyzer and log
    assume "get_commits srv (repo_client an)
        (map_option (\<lambda>d. isoformat d @ ''Z'') (date_from an))
        (map_option (\<lambda>d. isoformat d @ ''Z'') (date_to an)) = Some (Inr commits, log)"
    then show "get_contributors srv an limit = Some (get_contributors_rating commits limit, log)"
      by (rule J)
  qed
qed


text \<open>
  Five commits of which two are skipped, ranked with limit 1; a commit without an
  author field between two good ones; and the six commits of the example.
\<close>

theorem get_contributors_ranking_witness:
  "map commit_error
     [commit_by (Some ''alice''), commit_by None, JObj [(''author'', JObj [])],
      commit_by (Some ''bob''), commit_by (Some ''alice'')] = [None, None, None, None, None] \<and>
   (\<exists>ranking. get_contributors_rating
     [commit_by (Some ''alice''), commit_by None, JObj [(''author'', JObj [])],
      commit_by (Some ''bob''), commit_by (Some ''alice'')] 1 = Inr ranking) \<and>
   get_contributors_rating
     [commit_by (Some ''alice''), commit_by None, JObj [(''author'', JObj [])],
      commit_by (Some ''bob''), commit_by (Some ''alice'')] 1 = Inr [(JStr ''alice'', 2)] \<and>
   commit_error (commit_by (Some ''alice'')) = None \<and>
   commit_error (JObj []) = Some (KeyError ''author'') \<and>
   get_contributors_rating [commit_by (Some ''alice''), JObj [], commit_by (Some ''bob'')] 0 =
     Inl (KeyError ''author'') \<and>
   ''A'' \<noteq> ''B'' \<and> ''A'' \<noteq> ''C'' \<and> ''B'' \<noteq> ''C'' \<and>
   get_contributors_rating
     (map commit_by [Some ''A'', Some ''B'', Some ''A'', Some ''C'', Some ''B'', Some ''A'']) 0 =
     Inr [(JStr ''A'', 3), (JStr ''B'', 2), (JStr ''C'', 1)]"
proof -
  let ?cs = "[commit_by (Some ''alice''), commit_by None, JObj [(''author'', JObj [])],
      commit_by (Some ''bob''), commit_by (Some ''alice'')]"
  let ?bad = "[commit_by (Some ''alice''), JObj [], commit_by (Some ''bob'')]"
  have m: "map commit_error ?cs = [None, None, None, None, None]"
    by (simp add: commit_error_def commit_by_def)
  have wf: "\<forall>x\<in>set ?cs. commit_error x = None"
    by (simp add: commit_error_def commit_by_def)
  from get_contributors_ranking[where commits = ?cs and limit = 1,
      THEN conjunct2, THEN conjunct2, THEN conjunct1, THEN iffD2, OF wf]
  have ex: "\<exists>ranking. get_contributors_rating ?cs 1 = Inr ranking" .
  have v: "get_contributors_rating ?cs 1 = Inr [(JStr ''alice'', 2)]"
    by (simp add: get_contributors_rating_def sort_rating_def commit_by_def increment_def)
  have g: "commit_error (commit_by (Some ''alice'')) = None"
    by (simp add: commit_error_def commit_by_def)
  have b: "commit_error (JObj []) = Some (KeyError ''author'')"
    by (simp add: commit_error_def)
  have h: "?bad = [commit_by (Some ''alice'')] @ JObj [] # [commit_by (Some ''bob'')] \<and>
      (\<forall>y\<in>set [commit_by (Some ''alice'')]. commit_error y = None) \<and>
      commit_error (JObj []) = Some (KeyError ''author'')"
    using g b by simp
  from get_contributors_ranking[where commits = ?bad and limit = 0,
      THEN conjunct2, THEN conjunct1, THEN spec, THEN spec, THEN spec, THEN spec, THEN mp, OF h]
  have e: "get_contributors_rating ?bad 0 = Inl (KeyError ''author'')"
    by (rule conjunct1)
  have d: "''A'' \<noteq> ''B'' \<and> ''A'' \<noteq> ''C'' \<and> ''B'' \<noteq> ''C''"
    by simp
  note T = get_contributors_ranking[where a = "''A''" and b = "''B''" and c = "''C''"]
  from T[THEN conjunct2, THEN conjunct2, THEN conjunct2, THEN conjunct2, THEN conjunct2,
      THEN conjunct2, THEN conjunct2, THEN conjunct1, THEN mp, OF d]
  have run: "get_contributors_rating
     (map commit_by [Some ''A'', Some ''B'', Some ''A'', Some ''C'', Some ''B'', Some ''A'']) 0 =
     Inr [(JStr ''A'', 3), (JStr ''B'', 2), (JStr ''C'', 1)]" .
  from m ex v g b e d run show ?thesis
    by (intro conjI) (elim conjE, assumption)+
qed

end
